theory Spec2Isabelle
  imports
    Main
    "HOL-Library.AList"
    "HOL-Library.Word"
    "HOL-Library.Char_ord"
    "HOL-Library.List_Lexorder"
begin

chapter \<open>sgxwallet: the LevelDB wrapper, the store registry and the LRU cache\<close>

text \<open>
  A shallow embedding of \<^verbatim>\<open>LevelDB.cpp\<close> (the record codec, the key-value store
  operations, the key scans and the one-time initialisation of the three stores) and of
  \<^verbatim>\<open>lrucache.hpp\<close> (the synchronized LRU cache). Every C++ exception is a value of
  the type \<open>error\<close>; a function that can throw returns \<open>error + 'a\<close>, and one that also
  mutates an object returns the object next to the result, since a C++ exception leaves
  the mutations made before it in place.
\<close>

section \<open>Exceptions\<close>

text \<open>
  \<open>SGXException\<close> carries one of the status codes of \<^verbatim>\<open>sgxwallet_common.h\<close> and a
  message. \<open>InvalidStateException\<close> is what the \<^verbatim>\<open>CHECK_STATE\<close> macro throws. The
  remaining constructors are the standard-library and JsonCpp exceptions the modelled code
  can raise; \<open>Undefined_behaviour\<close> marks the places where the C++ would dereference an
  invalid pointer or iterator.
\<close>

datatype sgx_error_code =
    COULD_NOT_ACCESS_DATABASE
  | KEY_SHARE_ALREADY_EXISTS
  | COULD_NOT_GET_WORKING_DIRECTORY
  | ERROR_CREATING_SGX_DATA_FOLDER

datatype error =
    SGXException sgx_error_code string
  | InvalidStateException
  | Std_runtime_error string
  | Std_out_of_range
  | Std_invalid_argument
  | Std_range_error string
  | Json_LogicError
  | Undefined_behaviour

section \<open>Strings and numbers of the C++ standard library\<close>

text \<open>
  A \<^verbatim>\<open>std::string\<close> is a list of bytes. \<^verbatim>\<open>c_str()\<close> handed to a function that
  takes a C string is read up to the first NUL byte. \<^verbatim>\<open>at(0)\<close> throws
  \<^verbatim>\<open>std::out_of_range\<close> on the empty string, while \<^verbatim>\<open>operator[](0)\<close> yields the
  terminating NUL there.
\<close>

definition c_str :: "string \<Rightarrow> string" where
  "c_str s = takeWhile (\<lambda>c. c \<noteq> CHR 0x00) s"

definition string_at0 :: "string \<Rightarrow> error + char" where
  "string_at0 s = (case s of [] \<Rightarrow> Inl Std_out_of_range | c # _ \<Rightarrow> Inr c)"

definition string_index0 :: "string \<Rightarrow> char" where
  "string_index0 s = (case s of [] \<Rightarrow> CHR 0x00 | c # _ \<Rightarrow> c)"

text \<open>\<^verbatim>\<open>std::to_string\<close> on an integer: decimal digits, with a minus sign when negative.\<close>

definition digit_char :: "nat \<Rightarrow> char" where
  "digit_char d = ''0123456789'' ! (d mod 10)"

fun nat_digits :: "nat \<Rightarrow> string" where
  "nat_digits n = (if n < 10 then [digit_char n] else nat_digits (n div 10) @ [digit_char (n mod 10)])"

declare nat_digits.simps [simp del]

definition to_string :: "int \<Rightarrow> string" where
  "to_string i = (if i < 0 then CHR ''-'' # nat_digits (nat (- i)) else nat_digits (nat i))"

text \<open>
  \<^verbatim>\<open>std::stoi\<close> in base 10: leading white space is skipped, an optional sign and the
  longest run of digits are read, the rest is ignored. No digit at all is
  \<^verbatim>\<open>std::invalid_argument\<close>; a value outside the 32-bit \<^verbatim>\<open>int\<close> is
  \<^verbatim>\<open>std::out_of_range\<close>.
\<close>

definition isspace :: "char \<Rightarrow> bool" where
  "isspace c = (c \<in> set [CHR 0x20, CHR 0x09, CHR 0x0A, CHR 0x0B, CHR 0x0C, CHR 0x0D])"

definition isdigit :: "char \<Rightarrow> bool" where
  "isdigit c = (c \<in> set ''0123456789'')"

definition digit_value :: "char \<Rightarrow> int" where
  "digit_value c = int (of_char c) - 48"

definition digits_value :: "string \<Rightarrow> int" where
  "digits_value ds = foldl (\<lambda>a c. 10 * a + digit_value c) 0 ds"

definition stoi :: "string \<Rightarrow> error + int" where
  "stoi s =
     (let s1 = dropWhile isspace s;
          neg = (s1 \<noteq> [] \<and> hd s1 = CHR ''-'');
          s2 = (if s1 \<noteq> [] \<and> (hd s1 = CHR ''-'' \<or> hd s1 = CHR ''+'') then tl s1 else s1);
          ds = takeWhile isdigit s2;
          v = (if neg then - digits_value ds else digits_value ds)
      in if ds = [] then Inl Std_invalid_argument
         else if v < - 2147483648 \<or> 2147483647 < v then Inl Std_out_of_range
         else Inr v)"

text \<open>
  Insertion into an association list kept in key order, replacing the value of a key that
  is present: \<^verbatim>\<open>std::map::operator[]\<close> followed by an assignment, and the engine's
  \<^verbatim>\<open>Put\<close>.
\<close>

fun upsert :: "'k::linorder \<Rightarrow> 'v \<Rightarrow> ('k \<times> 'v) list \<Rightarrow> ('k \<times> 'v) list" where
  "upsert k v [] = [(k, v)]"
| "upsert k v (p # ps) =
     (if k < fst p then (k, v) # p # ps
      else if k = fst p then (k, v) # ps
      else p # upsert k v ps)"

section \<open>JSON values\<close>

text \<open>
  Modelled from the spec: the JSON library (JsonCpp: \<^verbatim>\<open>Json::Value\<close>,
  \<^verbatim>\<open>Json::Reader\<close>, \<^verbatim>\<open>Json::FastWriter\<close>) is a third-party dependency whose code is
  not among the sources; the spec calls its documents structured text objects with named
  fields. \<open>json\<close> is \<^verbatim>\<open>Json::Value\<close> without floating-point numbers; an object keeps
  its members in key order. \<open>json_index\<close> is \<^verbatim>\<open>operator[]\<close> read as an rvalue (a null
  value behaves as an empty object, a missing member reads as null, any other kind of value
  is a logic error), \<open>json_assign\<close> is \<^verbatim>\<open>value[key] = v\<close>, and \<open>asString\<close> converts
  null to the empty string, leaves a string as it is, prints booleans and integers, and
  fails on arrays and objects.
\<close>

datatype json =
    JNull
  | JBool bool
  | JInt int
  | JString string
  | JArray "json list"
  | JObject "(string \<times> json) list"

definition json_index :: "json \<Rightarrow> string \<Rightarrow> error + json" where
  "json_index j key =
     (case j of
        JNull \<Rightarrow> Inr JNull
      | JObject ms \<Rightarrow> (case map_of ms key of None \<Rightarrow> Inr JNull | Some v \<Rightarrow> Inr v)
      | _ \<Rightarrow> Inl Json_LogicError)"

definition json_assign :: "json \<Rightarrow> string \<Rightarrow> json \<Rightarrow> error + json" where
  "json_assign j key v =
     (case j of
        JNull \<Rightarrow> Inr (JObject [(key, v)])
      | JObject ms \<Rightarrow> Inr (JObject (upsert key v ms))
      | _ \<Rightarrow> Inl Json_LogicError)"

definition asString :: "json \<Rightarrow> error + string" where
  "asString j =
     (case j of
        JNull \<Rightarrow> Inr []
      | JString s \<Rightarrow> Inr s
      | JBool b \<Rightarrow> Inr (if b then ''true'' else ''false'')
      | JInt i \<Rightarrow> Inr (to_string i)
      | _ \<Rightarrow> Inl Json_LogicError)"

section \<open>The storage engine\<close>

text \<open>
  Modelled from the spec: the persistent engine (the LevelDB library) is an external
  collaborator; the spec gives its interface as get, put and an ordered iteration over the
  stored pairs. An engine is the sequence of its pairs in key order together with a fault
  that, when set, makes every call return an I/O error status and every iterator invalid.
\<close>

datatype status = Ok | NotFound | IOError string

definition status_ToString :: "status \<Rightarrow> string" where
  "status_ToString st =
     (case st of Ok \<Rightarrow> ''OK'' | NotFound \<Rightarrow> ''NotFound: '' | IOError m \<Rightarrow> ''IO error: '' @ m)"

record leveldb =
  db_data :: "(string \<times> string) list"
  db_fault :: "string option"

definition db_Get :: "leveldb \<Rightarrow> string \<Rightarrow> status \<times> string" where
  "db_Get e key =
     (case db_fault e of
        Some m \<Rightarrow> (IOError m, [])
      | None \<Rightarrow> (case map_of (db_data e) key of None \<Rightarrow> (NotFound, []) | Some v \<Rightarrow> (Ok, v)))"

definition db_Put :: "leveldb \<Rightarrow> string \<Rightarrow> string \<Rightarrow> status \<times> leveldb" where
  "db_Put e key val =
     (case db_fault e of
        Some m \<Rightarrow> (IOError m, e)
      | None \<Rightarrow> (Ok, e\<lparr>db_data := upsert key val (db_data e)\<rparr>))"

definition db_iterate :: "leveldb \<Rightarrow> (string \<times> string) list" where
  "db_iterate e = (case db_fault e of Some m \<Rightarrow> [] | None \<Rightarrow> db_data e)"

section \<open>The class \<^verbatim>\<open>LevelDB\<close>\<close>

text \<open>
  The object holds the pointer \<^verbatim>\<open>db\<close> to its engine. \<^verbatim>\<open>Json::Reader::parse\<close> and
  \<^verbatim>\<open>Json::FastWriter::write\<close> are parameters of the functions that call them: a reader
  maps a document to the success flag and the value it leaves in the root, a writer maps a
  value to its text. The current time \<^verbatim>\<open>std::time(nullptr)\<close> is the parameter \<open>now\<close>.
\<close>

record LevelDB =
  db :: "leveldb option"

type_synonym json_reader = "string \<Rightarrow> bool \<times> json"
type_synonym json_writer = "json \<Rightarrow> string"

text \<open>\<^verbatim>\<open>throwExceptionOnError\<close>: a not-found status passes, any other failure throws.\<close>

definition throwExceptionOnError :: "status \<Rightarrow> error + unit" where
  "throwExceptionOnError st =
     (if st = NotFound then Inr ()
      else if st \<noteq> Ok
      then Inl (SGXException COULD_NOT_ACCESS_DATABASE
                 (''Could not access database database:'' @ status_ToString st))
      else Inr ())"

text \<open>
  \<^verbatim>\<open>readNewStyleValue\<close> parses the C string of the stored bytes, drops the flag the
  parser returns, and converts the member \<^verbatim>\<open>"value"\<close> of the root to a string.
\<close>

definition readNewStyleValue :: "json_reader \<Rightarrow> string \<Rightarrow> error + string" where
  "readNewStyleValue rd val =
     (let key_data = snd (rd (c_str val))
      in case json_index key_data ''value'' of
           Inl e \<Rightarrow> Inl e
         | Inr j \<Rightarrow> asString j)"

text \<open>
  \<^verbatim>\<open>readString\<close>: \<^verbatim>\<open>CHECK_STATE(db)\<close>, the engine's \<^verbatim>\<open>Get\<close>, a null result for a
  missing key, then the test \<^verbatim>\<open>result->at(0) == '{'\<close> that chooses between the
  structured and the raw form.
\<close>

definition readString :: "json_reader \<Rightarrow> LevelDB \<Rightarrow> string \<Rightarrow> error + string option" where
  "readString rd this key =
     (case db this of
        None \<Rightarrow> Inl InvalidStateException
      | Some e \<Rightarrow>
          (let (st, result) = db_Get e key
           in case throwExceptionOnError st of
                Inl err \<Rightarrow> Inl err
              | Inr _ \<Rightarrow>
                  if st = NotFound then Inr None
                  else (case string_at0 result of
                          Inl err \<Rightarrow> Inl err
                        | Inr c \<Rightarrow>
                            if c = CHR ''{''
                            then (case readNewStyleValue rd result of
                                    Inl err \<Rightarrow> Inl err
                                  | Inr s \<Rightarrow> Inr (Some s))
                            else Inr (Some result))))"

text \<open>
  \<^verbatim>\<open>writeString\<close> builds the object with the members \<^verbatim>\<open>"value"\<close> and
  \<^verbatim>\<open>"timestamp"\<close>, serialises it and stores the text under the key. It returns the
  object as the engine call left it, also when the status makes it throw.
\<close>

definition writeString ::
  "json_writer \<Rightarrow> int \<Rightarrow> LevelDB \<Rightarrow> string \<Rightarrow> string \<Rightarrow> (error + unit) \<times> LevelDB" where
  "writeString wr now this key val =
     (case json_assign JNull ''value'' (JString val) of
        Inl err \<Rightarrow> (Inl err, this)
      | Inr w1 \<Rightarrow>
          (case json_assign w1 ''timestamp'' (JString (to_string now)) of
             Inl err \<Rightarrow> (Inl err, this)
           | Inr writerData \<Rightarrow>
               (let output = wr writerData
                in case db this of
                     None \<Rightarrow> (Inl Undefined_behaviour, this)
                   | Some e \<Rightarrow>
                       (let (st, e') = db_Put e key output
                        in (throwExceptionOnError st, this\<lparr>db := Some e'\<rparr>)))))"

text \<open>\<^verbatim>\<open>writeDataUnique\<close> throws when \<^verbatim>\<open>readString\<close> returns a non-null pointer.\<close>

definition writeDataUnique ::
  "json_reader \<Rightarrow> json_writer \<Rightarrow> int \<Rightarrow> LevelDB \<Rightarrow> string \<Rightarrow> string
     \<Rightarrow> (error + unit) \<times> LevelDB" where
  "writeDataUnique rd wr now this name val =
     (case readString rd this name of
        Inl err \<Rightarrow> (Inl err, this)
      | Inr (Some _) \<Rightarrow>
          (Inl (SGXException KEY_SHARE_ALREADY_EXISTS ''Data with this name already exists''), this)
      | Inr None \<Rightarrow> writeString wr now this name val)"

text \<open>
  \<^verbatim>\<open>visitKeys\<close> and \<^verbatim>\<open>writeKeysToVector1\<close>: the loop body visits (or collects) the
  current key and increments the 64-bit counter before it compares the counter with the
  bound. A visitor is its state and its \<^verbatim>\<open>visitDBKey\<close> method; the null visitor is
  \<open>None\<close>. \<^verbatim>\<open>visitKeys\<close> hands the visitor the pointer \<^verbatim>\<open>key().data()\<close>,
  which carries no length, so the visitor reads the key as a C string, up to its first NUL
  byte (a key without one is handed over whole here; where its C string ends in memory is
  not determined by the key); \<^verbatim>\<open>writeKeysToVector1\<close> copies \<^verbatim>\<open>data()\<close> with
  \<^verbatim>\<open>size()\<close> and collects whole keys.
\<close>

type_synonym uint64 = "64 word"

record 's KeyVisitor =
  visitor_state :: 's
  visitDBKey :: "string \<Rightarrow> 's \<Rightarrow> 's"

fun visit_loop ::
  "(string \<Rightarrow> 's \<Rightarrow> 's) \<Rightarrow> uint64 \<Rightarrow> (string \<times> string) list \<Rightarrow> uint64 \<Rightarrow> 's \<Rightarrow> uint64 \<times> 's" where
  "visit_loop f maxKeys [] readCounter s = (readCounter, s)"
| "visit_loop f maxKeys (kv # rest) readCounter s =
     (let s' = f (c_str (fst kv)) s;
          readCounter' = readCounter + 1
      in if readCounter' \<ge> maxKeys then (readCounter', s')
         else visit_loop f maxKeys rest readCounter' s')"

definition visitKeys ::
  "LevelDB \<Rightarrow> 's KeyVisitor option \<Rightarrow> uint64 \<Rightarrow> error + uint64 \<times> 's KeyVisitor" where
  "visitKeys this visitor maxKeysToVisit =
     (case visitor of
        None \<Rightarrow> Inl InvalidStateException
      | Some v \<Rightarrow>
          (case db this of
             None \<Rightarrow> Inl Undefined_behaviour
           | Some e \<Rightarrow>
               (let (n, s) = visit_loop (visitDBKey v) maxKeysToVisit (db_iterate e) 0
                                (visitor_state v)
                in Inr (n, v\<lparr>visitor_state := s\<rparr>))))"

fun collect_loop ::
  "uint64 \<Rightarrow> (string \<times> string) list \<Rightarrow> uint64 \<Rightarrow> string list \<Rightarrow> string list" where
  "collect_loop maxKeys [] readCounter keys = keys"
| "collect_loop maxKeys (kv # rest) readCounter keys =
     (let keys' = keys @ [fst kv];
          readCounter' = readCounter + 1
      in if readCounter' \<ge> maxKeys then keys'
         else collect_loop maxKeys rest readCounter' keys')"

definition writeKeysToVector1 :: "LevelDB \<Rightarrow> uint64 \<Rightarrow> error + string list" where
  "writeKeysToVector1 this maxKeysToVisit =
     (case db this of
        None \<Rightarrow> Inl Undefined_behaviour
      | Some e \<Rightarrow> Inr (collect_loop maxKeysToVisit (db_iterate e) 0 []))"

text \<open>
  \<^verbatim>\<open>getLatestCreatedKey\<close>: a value whose first byte (\<^verbatim>\<open>operator[]\<close>) is an opening
  brace is parsed, and \<^verbatim>\<open>std::stoi\<close> of its \<^verbatim>\<open>"timestamp"\<close> member is compared with
  the largest timestamp so far, which starts at 0; every other value is skipped. The
  expression is evaluated once in the comparison and once more in the assignment.
\<close>

definition record_timestamp :: "json_reader \<Rightarrow> string \<Rightarrow> error + int" where
  "record_timestamp rd val =
     (let key_data = snd (rd (c_str val))
      in case json_index key_data ''timestamp'' of
           Inl e \<Rightarrow> Inl e
         | Inr j \<Rightarrow> (case asString j of Inl e \<Rightarrow> Inl e | Inr s \<Rightarrow> stoi s))"

fun latest_loop ::
  "json_reader \<Rightarrow> (string \<times> string) list \<Rightarrow> int \<Rightarrow> string \<Rightarrow> error + string \<times> int" where
  "latest_loop rd [] latest_timestamp latest_created_key_name =
     Inr (latest_created_key_name, latest_timestamp)"
| "latest_loop rd (kv # rest) latest_timestamp latest_created_key_name =
     (if string_index0 (snd kv) = CHR ''{''
      then (case record_timestamp rd (snd kv) of
              Inl e \<Rightarrow> Inl e
            | Inr t \<Rightarrow>
                if t > latest_timestamp
                then (case record_timestamp rd (snd kv) of
                        Inl e \<Rightarrow> Inl e
                      | Inr t' \<Rightarrow> latest_loop rd rest t' (fst kv))
                else latest_loop rd rest latest_timestamp latest_created_key_name)
      else latest_loop rd rest latest_timestamp latest_created_key_name)"

definition getLatestCreatedKey :: "json_reader \<Rightarrow> LevelDB \<Rightarrow> error + string \<times> uint64" where
  "getLatestCreatedKey rd this =
     (case db this of
        None \<Rightarrow> Inl Undefined_behaviour
      | Some e \<Rightarrow>
          (case latest_loop rd (db_iterate e) 0 [] of
             Inl err \<Rightarrow> Inl err
           | Inr (name, ts) \<Rightarrow> Inr (name, word_of_int ts)))"

section \<open>The store registry\<close>

text \<open>
  The static members of \<^verbatim>\<open>LevelDB\<close> are the record \<open>registry\<close>. What the operating
  system and the engine answer during one run of \<^verbatim>\<open>initDataFolderAndDBs\<close> is the
  record \<open>sys_env\<close>: the result of \<^verbatim>\<open>getcwd\<close>, of \<^verbatim>\<open>stat\<close> and \<^verbatim>\<open>system\<close> on a
  given argument, and of \<^verbatim>\<open>leveldb::DB::Open\<close> on a given file name (the status and the
  pointer it stores). The macros \<^verbatim>\<open>SGXDATA_FOLDER\<close> and \<^verbatim>\<open>WALLETDB_NAME\<close> come from
  a header that is not among the sources and are fields of \<open>sys_env\<close> as well.
\<close>

record sys_env =
  env_getcwd :: "string option"
  env_stat :: "string \<Rightarrow> int"
  env_system :: "string \<Rightarrow> int"
  env_DB_Open :: "string \<Rightarrow> bool \<times> leveldb option"
  SGXDATA_FOLDER :: string
  WALLETDB_NAME :: string

record registry =
  isInited :: bool
  levelDb :: "LevelDB option"
  csrDb :: "LevelDB option"
  csrStatusDb :: "LevelDB option"
  sgx_data_folder :: string

definition registry_initial :: registry where
  "registry_initial =
     \<lparr>isInited = False, levelDb = None, csrDb = None, csrStatusDb = None, sgx_data_folder = []\<rparr>"

text \<open>The constructor throws when the engine cannot be opened or hands back a null pointer.\<close>

definition new_LevelDB :: "sys_env \<Rightarrow> string \<Rightarrow> error + LevelDB" where
  "new_LevelDB env filename =
     (let (ok, d) = env_DB_Open env filename
      in if \<not> ok then Inl (Std_runtime_error ''Unable to open levelDB database'')
         else if d = None then Inl (Std_runtime_error ''Null levelDB object'')
         else Inr \<lparr>db = d\<rparr>)"

text \<open>
  \<^verbatim>\<open>initDataFolderAndDBs\<close> sets \<open>isInited\<close> first and then runs the steps in order;
  the registry returned next to an error is the registry at the point of the throw.
\<close>

definition initDataFolderAndDBs :: "sys_env \<Rightarrow> registry \<Rightarrow> (error + unit) \<times> registry" where
  "initDataFolderAndDBs env r =
     (if isInited r then (Inl InvalidStateException, r)
      else
        (let r1 = r\<lparr>isInited := True\<rparr>
         in case env_getcwd env of
              None \<Rightarrow>
                (Inl (SGXException COULD_NOT_GET_WORKING_DIRECTORY
                        ''Could not get current working directory.''), r1)
            | Some cwd \<Rightarrow>
                (let folder = cwd @ ''/'' @ SGXDATA_FOLDER env;
                     r2 = r1\<lparr>sgx_data_folder := folder\<rparr>
                 in if env_stat env (c_str folder) \<noteq> 0
                       \<and> env_system env (c_str (''mkdir '' @ folder)) \<noteq> 0
                    then (Inl (SGXException ERROR_CREATING_SGX_DATA_FOLDER
                                 ''Could not create sgx_data folder.''), r2)
                    else
                      (case new_LevelDB env (folder @ WALLETDB_NAME env) of
                         Inl err \<Rightarrow> (Inl err, r2)
                       | Inr d1 \<Rightarrow>
                           (let r3 = r2\<lparr>levelDb := Some d1\<rparr>
                            in case new_LevelDB env (folder @ ''CSR_DB'') of
                                 Inl err \<Rightarrow> (Inl err, r3)
                               | Inr d2 \<Rightarrow>
                                   (let r4 = r3\<lparr>csrDb := Some d2\<rparr>
                                    in case new_LevelDB env (folder @ ''CSR_STATUS_DB'') of
                                         Inl err \<Rightarrow> (Inl err, r4)
                                       | Inr d3 \<Rightarrow>
                                           (Inr (), r4\<lparr>csrStatusDb := Some d3\<rparr>)))))))"

definition getLevelDb :: "registry \<Rightarrow> error + LevelDB" where
  "getLevelDb r = (case levelDb r of None \<Rightarrow> Inl InvalidStateException | Some d \<Rightarrow> Inr d)"

definition getCsrDb :: "registry \<Rightarrow> error + LevelDB" where
  "getCsrDb r = (case csrDb r of None \<Rightarrow> Inl InvalidStateException | Some d \<Rightarrow> Inr d)"

definition getCsrStatusDb :: "registry \<Rightarrow> error + LevelDB" where
  "getCsrStatusDb r = (case csrStatusDb r of None \<Rightarrow> Inl InvalidStateException | Some d \<Rightarrow> Inr d)"

text \<open>
  The steps of \<^verbatim>\<open>initDataFolderAndDBs\<close> by name: the data folder it computes from the
  working directory, whether the folder is there after the \<^verbatim>\<open>stat\<close> and \<^verbatim>\<open>mkdir\<close>
  step, and the three constructor calls.
\<close>

definition data_folder :: "sys_env \<Rightarrow> string \<Rightarrow> string" where
  "data_folder env cwd = cwd @ ''/'' @ SGXDATA_FOLDER env"

definition folder_ready :: "sys_env \<Rightarrow> string \<Rightarrow> bool" where
  "folder_ready env cwd =
     (env_stat env (c_str (data_folder env cwd)) = 0 \<or>
      env_system env (c_str (''mkdir '' @ data_folder env cwd)) = 0)"

definition open_wallet :: "sys_env \<Rightarrow> string \<Rightarrow> error + LevelDB" where
  "open_wallet env cwd = new_LevelDB env (data_folder env cwd @ WALLETDB_NAME env)"

definition open_csr :: "sys_env \<Rightarrow> string \<Rightarrow> error + LevelDB" where
  "open_csr env cwd = new_LevelDB env (data_folder env cwd @ ''CSR_DB'')"

definition open_csr_status :: "sys_env \<Rightarrow> string \<Rightarrow> error + LevelDB" where
  "open_csr_status env cwd = new_LevelDB env (data_folder env cwd @ ''CSR_STATUS_DB'')"

section \<open>The LRU cache (\<^verbatim>\<open>cache::lru_cache\<close>)\<close>

text \<open>
  The class keeps a \<^verbatim>\<open>std::list\<close> of key-value pairs, most recently used first, and
  an \<^verbatim>\<open>std::unordered_map\<close> from keys to iterators into that list. An iterator is
  the identity of a list node, so every node carries an identifier: \<open>cache_items_list\<close>
  holds the nodes \<open>(id, key, value)\<close> front to back, \<open>cache_items_map\<close> holds the
  pairs \<open>(key, id)\<close>, and \<open>next_node\<close> is the identifier the next \<^verbatim>\<open>push_front\<close>
  allocates. The recursive mutex serialises the operations and has no counterpart here.
  The constructor is \<open>new_lru_cache\<close>; \<^verbatim>\<open>exists\<close> and \<^verbatim>\<open>size\<close> are
  \<open>exists_key\<close> and \<open>size_cache\<close>.
\<close>

record ('k, 'v) lru_cache =
  cache_items_list :: "(nat \<times> 'k \<times> 'v) list"
  cache_items_map :: "('k \<times> nat) list"
  max_size :: nat
  next_node :: nat

definition new_lru_cache :: "nat \<Rightarrow> ('k, 'v) lru_cache" where
  "new_lru_cache n =
     \<lparr>cache_items_list = [], cache_items_map = [], max_size = n, next_node = 0\<rparr>"

text \<open>\<^verbatim>\<open>list.erase(it)\<close> removes the node the iterator names; \<^verbatim>\<open>list.splice(begin,
  list, it)\<close> moves it to the front.\<close>

definition list_erase :: "nat \<Rightarrow> (nat \<times> 'k \<times> 'v) list \<Rightarrow> (nat \<times> 'k \<times> 'v) list" where
  "list_erase i xs = filter (\<lambda>node. fst node \<noteq> i) xs"

definition splice_front :: "nat \<Rightarrow> (nat \<times> 'k \<times> 'v) list \<Rightarrow> (nat \<times> 'k \<times> 'v) list" where
  "splice_front i xs =
     filter (\<lambda>node. fst node = i) xs @ filter (\<lambda>node. fst node \<noteq> i) xs"

text \<open>
  \<^verbatim>\<open>put\<close>: look the key up, push the new node, erase the old node and its map entry
  when the key was found, store the new iterator under the key, and evict the last node
  when the map has grown beyond \<open>max_size\<close>.
\<close>

definition put :: "('k, 'v) lru_cache \<Rightarrow> 'k \<Rightarrow> 'v \<Rightarrow> ('k, 'v) lru_cache" where
  "put c key val =
     (let it = map_of (cache_items_map c) key;
          n = next_node c;
          pushed = (n, key, val) # cache_items_list c;
          lst = (case it of None \<Rightarrow> pushed | Some i \<Rightarrow> list_erase i pushed);
          mp = (case it of None \<Rightarrow> cache_items_map c
                | Some i \<Rightarrow> AList.delete key (cache_items_map c));
          mp' = AList.update key n mp
      in if length mp' > max_size c
         then c\<lparr>cache_items_list := butlast lst,
                cache_items_map := AList.delete (fst (snd (last lst))) mp',
                next_node := Suc n\<rparr>
         else c\<lparr>cache_items_list := lst, cache_items_map := mp', next_node := Suc n\<rparr>)"

definition exists_key :: "('k, 'v) lru_cache \<Rightarrow> 'k \<Rightarrow> bool" where
  "exists_key c key = (map_of (cache_items_map c) key \<noteq> None)"

definition putIfDoesNotExist :: "('k, 'v) lru_cache \<Rightarrow> 'k \<Rightarrow> 'v \<Rightarrow> ('k, 'v) lru_cache" where
  "putIfDoesNotExist c key val = (if \<not> exists_key c key then put c key val else c)"

text \<open>
  \<^verbatim>\<open>get\<close> throws \<^verbatim>\<open>std::range_error\<close> for an absent key and otherwise moves the
  node to the front and returns its value.
\<close>

definition get :: "('k, 'v) lru_cache \<Rightarrow> 'k \<Rightarrow> (error + 'v) \<times> ('k, 'v) lru_cache" where
  "get c key =
     (case map_of (cache_items_map c) key of
        None \<Rightarrow> (Inl (Std_range_error ''There is no such key in cache''), c)
      | Some i \<Rightarrow>
          (case map_of (cache_items_list c) i of
             None \<Rightarrow> (Inl Undefined_behaviour, c)
           | Some kv \<Rightarrow>
               (Inr (snd kv), c\<lparr>cache_items_list := splice_front i (cache_items_list c)\<rparr>)))"

definition size_cache :: "('k, 'v) lru_cache \<Rightarrow> nat" where
  "size_cache c = length (cache_items_map c)"

text \<open>
  A sequence of calls on one cache. A \<open>Get\<close> that throws leaves the cache as it was;
  \<open>Exists\<close> and \<open>Size\<close> only read.
\<close>

datatype ('k, 'v) cache_op = Put 'k 'v | PutIfDoesNotExist 'k 'v | Get 'k | Exists 'k | Size

fun apply_op :: "('k, 'v) lru_cache \<Rightarrow> ('k, 'v) cache_op \<Rightarrow> ('k, 'v) lru_cache" where
  "apply_op c (Put k v) = put c k v"
| "apply_op c (PutIfDoesNotExist k v) = putIfDoesNotExist c k v"
| "apply_op c (Get k) = snd (get c k)"
| "apply_op c (Exists k) = c"
| "apply_op c Size = c"

definition run_ops :: "('k, 'v) lru_cache \<Rightarrow> ('k, 'v) cache_op list \<Rightarrow> ('k, 'v) lru_cache" where
  "run_ops c ops = foldl apply_op c ops"

text \<open>The entries in recency order, most recently used first.\<close>

definition cache_entries :: "('k, 'v) lru_cache \<Rightarrow> ('k \<times> 'v) list" where
  "cache_entries c = map snd (cache_items_list c)"
text \<open>
  Order of use, in the spec's words: \<^verbatim>\<open>put\<close> and \<^verbatim>\<open>get\<close> mark the entry they touch as
  most recently used, \<^verbatim>\<open>putIfDoesNotExist\<close> on a present key and \<^verbatim>\<open>exists\<close> leave
  the recency alone, and a \<^verbatim>\<open>get\<close> of an absent key throws. \<open>touched_key\<close> is the key
  a call uses in a given cache, if any. \<open>use_time C ops k\<close> is the position, counted from
  1, of the last call of \<open>ops\<close> (run on a new cache of capacity \<open>C\<close>) that used \<open>k\<close>,
  and 0 when no call used it. It is computed from the calls and the presence of the keys,
  never from the order of the list.
\<close>

definition touched_key :: "('k, 'v) lru_cache \<Rightarrow> ('k, 'v) cache_op \<Rightarrow> 'k option" where
  "touched_key c op =
     (case op of
        Put k v \<Rightarrow> Some k
      | PutIfDoesNotExist k v \<Rightarrow> if exists_key c k then None else Some k
      | Get k \<Rightarrow> if exists_key c k then Some k else None
      | Exists k \<Rightarrow> None
      | Size \<Rightarrow> None)"

fun run_uses ::
  "('k, 'v) lru_cache \<Rightarrow> ('k, 'v) cache_op list \<Rightarrow> nat \<Rightarrow> ('k \<Rightarrow> nat) \<Rightarrow> 'k \<Rightarrow> nat" where
  "run_uses c [] t u = u"
| "run_uses c (op # ops) t u =
     run_uses (apply_op c op) ops (Suc t)
       (case touched_key c op of None \<Rightarrow> u | Some k \<Rightarrow> u(k := Suc t))"

definition use_time :: "nat \<Rightarrow> ('k, 'v) cache_op list \<Rightarrow> 'k \<Rightarrow> nat" where
  "use_time C ops = run_uses (new_lru_cache C :: ('k, 'v) lru_cache) ops 0 (\<lambda>k. 0)"

text \<open>
  The representation invariant used in the proofs: node identifiers and keys are unique,
  the map holds exactly the pairs \<open>(key, id)\<close> of the nodes, and every identifier in
  use is below \<open>next_node\<close>. \<open>wf_cache\<close> adds the capacity bound.
\<close>

definition consistent :: "(nat \<times> 'k \<times> 'v) list \<Rightarrow> ('k \<times> nat) list \<Rightarrow> nat \<Rightarrow> bool" where
  "consistent xs m n =
     (distinct (map fst xs) \<and>
      distinct (map (fst \<circ> snd) xs) \<and>
      distinct (map fst m) \<and>
      (\<forall>k i. map_of m k = Some i \<longleftrightarrow> (\<exists>v. (i, k, v) \<in> set xs)) \<and>
      (\<forall>node \<in> set xs. fst node < n))"

definition wf_cache :: "('k, 'v) lru_cache \<Rightarrow> bool" where
  "wf_cache c =
     (consistent (cache_items_list c) (cache_items_map c) (next_node c) \<and>
      length (cache_items_map c) \<le> max_size c)"

section \<open>A reference JSON codec\<close>

text \<open>
  Modelled from the spec: a writer and a reader for the record wire format (a structured
  text object whose named fields are strings), standing in for \<^verbatim>\<open>Json::FastWriter\<close> and
  \<^verbatim>\<open>Json::Reader\<close> wherever a concrete codec is needed. The writer prints any \<open>json\<close>
  value compactly, members in the order the object holds them, and ends with a newline; a
  string is quoted with the JSON escapes, control characters as \<^verbatim>\<open>\u00XX\<close>. The reader
  accepts objects whose members are strings; anything else makes it report failure. Like
  \<^verbatim>\<open>Json::Reader\<close> it leaves the members read so far in the root when it fails and
  ignores what follows the closing brace.
\<close>

definition hex_digit :: "nat \<Rightarrow> char" where
  "hex_digit d = ''0123456789ABCDEF'' ! (d mod 16)"

definition escape_char :: "char \<Rightarrow> string" where
  "escape_char c =
     (if c = CHR 0x22 then [CHR 0x5C, CHR 0x22]
      else if c = CHR 0x5C then [CHR 0x5C, CHR 0x5C]
      else if c = CHR 0x08 then [CHR 0x5C, CHR ''b'']
      else if c = CHR 0x0C then [CHR 0x5C, CHR ''f'']
      else if c = CHR 0x0A then [CHR 0x5C, CHR ''n'']
      else if c = CHR 0x0D then [CHR 0x5C, CHR ''r'']
      else if c = CHR 0x09 then [CHR 0x5C, CHR ''t'']
      else if (of_char c :: nat) < 32
      then [CHR 0x5C, CHR ''u'', CHR ''0'', CHR ''0'',
            hex_digit (of_char c div 16), hex_digit (of_char c mod 16)]
      else [c])"

definition valueToQuotedString :: "string \<Rightarrow> string" where
  "valueToQuotedString s = CHR 0x22 # concat (map escape_char s) @ [CHR 0x22]"

fun join_comma :: "string list \<Rightarrow> string" where
  "join_comma [] = []"
| "join_comma [x] = x"
| "join_comma (x # y # ys) = x @ '','' @ join_comma (y # ys)"

fun writeValue :: "json \<Rightarrow> string" where
  "writeValue JNull = ''null''"
| "writeValue (JBool b) = (if b then ''true'' else ''false'')"
| "writeValue (JInt i) = to_string i"
| "writeValue (JString s) = valueToQuotedString s"
| "writeValue (JArray xs) = ''['' @ join_comma (map writeValue xs) @ '']''"
| "writeValue (JObject ms) =
     ''{'' @ join_comma (map (\<lambda>m. valueToQuotedString (fst m) @ '':'' @ writeValue (snd m)) ms)
       @ ''}''"

definition FastWriter_write :: json_writer where
  "FastWriter_write j = writeValue j @ [CHR 0x0A]"

datatype token = TObjectBegin | TObjectEnd | TMemberSeparator | TArraySeparator
  | TString string | TError

datatype lex_mode = Outside | InString string | Escape string | Unicode string string

definition hex_value :: "char \<Rightarrow> nat option" where
  "hex_value c =
     (if isdigit c then Some (of_char c - 48)
      else if c \<in> set ''abcdef'' then Some (of_char c - 87)
      else if c \<in> set ''ABCDEF'' then Some (of_char c - 55)
      else None)"

definition unescape :: "char \<Rightarrow> char option" where
  "unescape c =
     (if c = CHR 0x22 then Some (CHR 0x22)
      else if c = CHR ''/'' then Some (CHR ''/'')
      else if c = CHR 0x5C then Some (CHR 0x5C)
      else if c = CHR ''b'' then Some (CHR 0x08)
      else if c = CHR ''f'' then Some (CHR 0x0C)
      else if c = CHR ''n'' then Some (CHR 0x0A)
      else if c = CHR ''r'' then Some (CHR 0x0D)
      else if c = CHR ''t'' then Some (CHR 0x09)
      else None)"

definition code_point :: "string \<Rightarrow> nat option" where
  "code_point hs =
     (case map hex_value hs of
        [Some a, Some b, Some c, Some d] \<Rightarrow> Some (((a * 16 + b) * 16 + c) * 16 + d)
      | _ \<Rightarrow> None)"

fun lex_json :: "lex_mode \<Rightarrow> string \<Rightarrow> token list" where
  "lex_json Outside [] = []"
| "lex_json (InString buf) [] = [TError]"
| "lex_json (Escape buf) [] = [TError]"
| "lex_json (Unicode buf hs) [] = [TError]"
| "lex_json Outside (c # cs) =
     (if isspace c then lex_json Outside cs
      else if c = CHR ''{'' then TObjectBegin # lex_json Outside cs
      else if c = CHR ''}'' then TObjectEnd # lex_json Outside cs
      else if c = CHR '':'' then TMemberSeparator # lex_json Outside cs
      else if c = CHR '','' then TArraySeparator # lex_json Outside cs
      else if c = CHR 0x22 then lex_json (InString []) cs
      else [TError])"
| "lex_json (InString buf) (c # cs) =
     (if c = CHR 0x22 then TString buf # lex_json Outside cs
      else if c = CHR 0x5C then lex_json (Escape buf) cs
      else lex_json (InString (buf @ [c])) cs)"
| "lex_json (Escape buf) (c # cs) =
     (if c = CHR ''u'' then lex_json (Unicode buf []) cs
      else (case unescape c of
              None \<Rightarrow> [TError]
            | Some d \<Rightarrow> lex_json (InString (buf @ [d])) cs))"
| "lex_json (Unicode buf hs) (c # cs) =
     (if length hs < 3 then lex_json (Unicode buf (hs @ [c])) cs
      else (case code_point (hs @ [c]) of
              None \<Rightarrow> [TError]
            | Some n \<Rightarrow> if n < 128 then lex_json (InString (buf @ [char_of n])) cs else [TError]))"

fun read_members :: "(string \<times> json) list \<Rightarrow> token list \<Rightarrow> bool \<times> json" where
  "read_members ms toks =
     (case toks of
        TString name # TMemberSeparator # TString s # rest \<Rightarrow>
          (case rest of
             TArraySeparator # rest' \<Rightarrow> read_members (upsert name (JString s) ms) rest'
           | TObjectEnd # _ \<Rightarrow> (True, JObject (upsert name (JString s) ms))
           | _ \<Rightarrow> (False, JObject (upsert name (JString s) ms)))
      | _ \<Rightarrow> (False, JObject ms))"

declare read_members.simps [simp del]

definition Reader_parse :: json_reader where
  "Reader_parse document =
     (case lex_json Outside document of
        TObjectBegin # TObjectEnd # _ \<Rightarrow> (True, JObject [])
      | TObjectBegin # toks \<Rightarrow> read_members [] toks
      | _ \<Rightarrow> (False, JNull))"

section \<open>Record objects, formats and sample stores\<close>

text \<open>The object \<^verbatim>\<open>writeString\<close> builds for a payload and a time.\<close>

definition record_object :: "string \<Rightarrow> int \<Rightarrow> json" where
  "record_object payload now =
     JObject [(''timestamp'', JString (to_string now)), (''value'', JString payload)]"

text \<open>
  The format of stored bytes, by the test \<^verbatim>\<open>getAllKeys\<close> and
  \<^verbatim>\<open>getLatestCreatedKey\<close> apply: an opening brace first means the structured form.
\<close>

datatype record_format = Legacy | Versioned

definition format_of :: "string \<Rightarrow> record_format" where
  "format_of stored = (if string_index0 stored = CHR ''{'' then Versioned else Legacy)"

text \<open>
  The structured records of a scan with the timestamps \<^verbatim>\<open>getLatestCreatedKey\<close> reads
  from them, and the running maximum of its loop over such a list.
\<close>

definition versioned_timestamps :: "json_reader \<Rightarrow> (string \<times> string) list \<Rightarrow> (string \<times> int) list" where
  "versioned_timestamps rd es =
     List.map_filter
       (\<lambda>kv. if format_of (snd kv) = Versioned
             then (case record_timestamp rd (snd kv) of Inl _ \<Rightarrow> None | Inr t \<Rightarrow> Some (fst kv, t))
             else None) es"

fun latest_from :: "(string \<times> int) list \<Rightarrow> int \<Rightarrow> string \<Rightarrow> string \<times> int" where
  "latest_from [] t n = (n, t)"
| "latest_from (p # ps) t n = (if snd p > t then latest_from ps (snd p) (fst p) else latest_from ps t n)"

text \<open>Sample stores, visitors and environments for concrete runs.\<close>

definition L0 :: LevelDB where
  "L0 = \<lparr>db = Some \<lparr>db_data = [], db_fault = None\<rparr>\<rparr>"

definition epoch_store :: LevelDB where
  \<open>epoch_store = \<lparr>db = Some \<lparr>db_data = [(''k'', ''{"timestamp":"0","value":"x"}'' @ [CHR 0x0A])],
                                db_fault = None\<rparr>\<rparr>\<close>

definition three_store :: LevelDB where
  \<open>three_store =
     \<lparr>db = Some \<lparr>db_data = [(''a'', ''{"timestamp":"10","value":"x"}''),
                              (''b'', ''{"timestamp":"30","value":"y"}''),
                              (''c'', ''{"timestamp":"20","value":"z"}''),
                              (''d'', ''legacy'')],
                  db_fault = None\<rparr>\<rparr>\<close>

definition recording_visitor :: "string list KeyVisitor" where
  "recording_visitor = \<lparr>visitor_state = [], visitDBKey = (\<lambda>key seen. seen @ [key])\<rparr>"

definition two_key_store :: LevelDB where
  "two_key_store =
     \<lparr>db = Some \<lparr>db_data = [(''a'', ''x''), (''b'', ''y'')], db_fault = None\<rparr>\<rparr>"

definition failing_env :: sys_env where
  "failing_env =
     \<lparr>env_getcwd = Some ''/home/sgx'',
      env_stat = (\<lambda>path. 0),
      env_system = (\<lambda>command. 0),
      env_DB_Open = (\<lambda>filename.
         if filename = ''/home/sgx/sgx_data/CSR_STATUS_DB'' then (False, None)
         else (True, Some \<lparr>db_data = [], db_fault = None\<rparr>)),
      SGXDATA_FOLDER = ''sgx_data/'',
      WALLETDB_NAME = ''sgxwallet.db''\<rparr>"

section \<open>Properties of reading and writing\<close>

lemma writerData_record_object:
  "(case json_assign JNull ''value'' (JString val) of
      Inl err \<Rightarrow> Inl err
    | Inr w1 \<Rightarrow> json_assign w1 ''timestamp'' (JString (to_string now)))
   = Inr (record_object val now)"
  by (simp add: json_assign_def record_object_def)

lemma map_of_upsert: "map_of (upsert k v ps) = (map_of ps)(k \<mapsto> v)"
  by (induction ps) (auto simp: fun_eq_iff)

lemma writeString_ok:
  assumes "db this = Some e" "db_fault e = None"
  shows "writeString wr now this key val =
           (Inr (), this\<lparr>db := Some (e\<lparr>db_data := upsert key (wr (record_object val now)) (db_data e)\<rparr>)\<rparr>)"
  using assms
  by (simp add: writeString_def json_assign_def record_object_def db_Put_def
      throwExceptionOnError_def)

lemma writeString_Inr:
  assumes "writeString wr now this key val = (Inr (), this')"
  shows "\<exists>e. db this = Some e \<and> db_fault e = None \<and>
           this' = this\<lparr>db := Some (e\<lparr>db_data := upsert key (wr (record_object val now)) (db_data e)\<rparr>)\<rparr>"
  using assms
  by (auto simp: writeString_def json_assign_def record_object_def db_Put_def
      throwExceptionOnError_def split: option.splits)

lemma readString_stored:
  assumes "db this = Some e" "db_Get e key = (Ok, b)"
  shows "readString rd this key =
           (case b of
              [] \<Rightarrow> Inl Std_out_of_range
            | c # cs \<Rightarrow>
                if c = CHR ''{''
                then (case readNewStyleValue rd b of Inl err \<Rightarrow> Inl err | Inr s \<Rightarrow> Inr (Some s))
                else Inr (Some b))"
  using assms
  by (simp add: readString_def throwExceptionOnError_def string_at0_def split: list.splits)

lemma db_Get_after_Put:
  assumes "db_fault e = None"
  shows "db_Get (e\<lparr>db_data := upsert key v (db_data e)\<rparr>) key = (Ok, v)"
  using assms by (simp add: db_Get_def map_of_upsert)

lemma readNewStyleValue_root:
  assumes "snd (rd (c_str b)) = root"
  shows "readNewStyleValue rd b =
           (case json_index root ''value'' of Inl e \<Rightarrow> Inl e | Inr j \<Rightarrow> asString j)"
  using assms by (simp add: readNewStyleValue_def)

lemma readNewStyleValue_record_object:
  assumes "snd (rd (c_str b)) = record_object P T"
  shows "readNewStyleValue rd b = Inr P"
  using assms by (simp add: readNewStyleValue_def record_object_def json_index_def asString_def)

text \<open>
  Claim C1. Let \<^verbatim>\<open>writeString\<close> store payload \<open>P\<close> at time \<open>T\<close> with a JSON library
  whose writer starts the text of the record object with an opening brace and whose reader
  recovers that object from the text. Then \<^verbatim>\<open>readString\<close> on the same key returns
  exactly \<open>P\<close>, and the stored bytes have the Versioned format.
\<close>

theorem write_read_roundtrip:
  assumes written: "writeString wr T this key P = (Inr (), this')"
    and nonempty: "wr (record_object P T) \<noteq> []"
    and marker: "hd (wr (record_object P T)) = CHR ''{''"
    and library: "snd (rd (c_str (wr (record_object P T)))) = record_object P T"
  shows "readString rd this' key = Inr (Some P) \<and>
         (\<exists>e'. db this' = Some e' \<and>
               db_Get e' key = (Ok, wr (record_object P T)) \<and>
               format_of (wr (record_object P T)) = Versioned)"
proof -
  let ?b = "wr (record_object P T)"
  obtain e where e: "db this = Some e" "db_fault e = None"
    and this': "this' = this\<lparr>db := Some (e\<lparr>db_data := upsert key ?b (db_data e)\<rparr>)\<rparr>"
    using writeString_Inr [OF written] by blast
  let ?e' = "e\<lparr>db_data := upsert key ?b (db_data e)\<rparr>"
  have d: "db this' = Some ?e'" using this' by simp
  have g: "db_Get ?e' key = (Ok, ?b)" using e(2) by (rule db_Get_after_Put)
  obtain c cs where b: "?b = c # cs" using nonempty by (cases ?b) auto
  with marker have c: "c = CHR ''{''" by simp
  have "readString rd this' key = Inr (Some P)"
    using readString_stored [OF d g, of rd] b c
      readNewStyleValue_record_object [of rd ?b P T] library
    by simp
  moreover have "format_of ?b = Versioned"
    using b c by (simp add: format_of_def string_index0_def)
  ultimately show ?thesis using d g by blast
qed

text \<open>
  Claim C5. After a successful \<^verbatim>\<open>writeString\<close> of \<open>v1\<close> under \<open>k\<close> (same library
  contract as in C1), \<^verbatim>\<open>writeDataUnique\<close> on \<open>k\<close> throws
  \<^verbatim>\<open>KEY_SHARE_ALREADY_EXISTS\<close>, leaves the store as it was, and a following
  \<^verbatim>\<open>readString\<close> still returns \<open>v1\<close>.
\<close>

theorem writeDataUnique_duplicate:
  assumes written: "writeString wr T1 this k v1 = (Inr (), this1)"
    and nonempty: "wr (record_object v1 T1) \<noteq> []"
    and marker: "hd (wr (record_object v1 T1)) = CHR ''{''"
    and library: "snd (rd (c_str (wr (record_object v1 T1)))) = record_object v1 T1"
  shows "writeDataUnique rd wr T2 this1 k v2 =
           (Inl (SGXException KEY_SHARE_ALREADY_EXISTS ''Data with this name already exists''),
            this1) \<and>
         readString rd (snd (writeDataUnique rd wr T2 this1 k v2)) k = Inr (Some v1)"
proof -
  let ?b = "wr (record_object v1 T1)"
  obtain e where e: "db this = Some e" "db_fault e = None"
    and this1: "this1 = this\<lparr>db := Some (e\<lparr>db_data := upsert k ?b (db_data e)\<rparr>)\<rparr>"
    using writeString_Inr [OF written] by blast
  let ?e' = "e\<lparr>db_data := upsert k ?b (db_data e)\<rparr>"
  have d: "db this1 = Some ?e'" using this1 by simp
  have g: "db_Get ?e' k = (Ok, ?b)" using e(2) by (rule db_Get_after_Put)
  obtain c cs where b: "?b = c # cs" using nonempty by (cases ?b) auto
  with marker have c: "c = CHR ''{''" by simp
  have r: "readString rd this1 k = Inr (Some v1)"
    using readString_stored [OF d g, of rd] b c
      readNewStyleValue_record_object [of rd ?b v1 T1] library
    by simp
  then have "writeDataUnique rd wr T2 this1 k v2 =
           (Inl (SGXException KEY_SHARE_ALREADY_EXISTS ''Data with this name already exists''),
            this1)"
    by (simp add: writeDataUnique_def)
  with r show ?thesis by simp
qed

text \<open>
  Claim C2, as amended. For stored bytes that begin with an opening brace,
  \<^verbatim>\<open>readString\<close> never looks at the flag the parser returns: its result is the string
  form of the member \<^verbatim>\<open>"value"\<close> of whatever root the parser left. When the root is null
  or an object without that member, as after a failed parse, the result is the empty
  string and no error.
\<close>

theorem readString_ignores_parse_result:
  assumes "db this = Some e"
    and "db_Get e key = (Ok, b)"
    and "b \<noteq> []"
    and "hd b = CHR ''{''"
    and "rd (c_str b) = (ok, root)"
  shows "readString rd this key =
           (case json_index root ''value'' of
              Inl err \<Rightarrow> Inl err
            | Inr j \<Rightarrow> (case asString j of Inl err \<Rightarrow> Inl err | Inr s \<Rightarrow> Inr (Some s))) \<and>
         ((root = JNull \<or> (\<exists>ms. root = JObject ms \<and> map_of ms ''value'' = None))
            \<longrightarrow> readString rd this key = Inr (Some []))"
proof -
  obtain c cs where b: "b = c # cs" using assms(3) by (cases b) auto
  with assms(4) have c: "c = CHR ''{''" by simp
  have root: "snd (rd (c_str b)) = root" using assms(5) by simp
  have 1: "readString rd this key =
           (case json_index root ''value'' of
              Inl err \<Rightarrow> Inl err
            | Inr j \<Rightarrow> (case asString j of Inl err \<Rightarrow> Inl err | Inr s \<Rightarrow> Inr (Some s)))"
    using readString_stored [OF assms(1,2), of rd] b c readNewStyleValue_root [of rd b root] root
    by (simp split: sum.splits)
  have 2: "readString rd this key = Inr (Some [])"
    if "root = JNull \<or> (\<exists>ms. root = JObject ms \<and> map_of ms ''value'' = None)"
    using that unfolding 1 by (auto simp: json_index_def asString_def)
  show ?thesis using 1 2 by blast
qed

text \<open>
  The stored bytes \<^verbatim>\<open>{\<close> begin with the marker and do not parse, and \<^verbatim>\<open>readString\<close>
  returns the empty string.
\<close>

theorem readString_malformed_counterexample:
  \<open>fst (Reader_parse (c_str ''{'')) = False \<and>
   readString Reader_parse \<lparr>db = Some \<lparr>db_data = [(''k'', ''{'')], db_fault = None\<rparr>\<rparr> ''k''
     = Inr (Some [])\<close>
  by (simp add: readString_def db_Get_def throwExceptionOnError_def string_at0_def
      readNewStyleValue_def c_str_def Reader_parse_def read_members.simps
      json_index_def asString_def)

text \<open>
  Claim C3 at the empty byte sequence: \<^verbatim>\<open>readString\<close> on a key whose stored value is
  empty throws \<^verbatim>\<open>std::out_of_range\<close> from \<^verbatim>\<open>at(0)\<close>, whatever the JSON reader, while
  the scans classify the empty value as old style. For a non-empty value that does not
  begin with an opening brace \<^verbatim>\<open>readString\<close> returns the bytes as they are.
\<close>

theorem readString_empty_value:
  "readString rd \<lparr>db = Some \<lparr>db_data = [(''k'', [])], db_fault = None\<rparr>\<rparr> ''k''
     = Inl Std_out_of_range"
  by (simp add: readString_def db_Get_def throwExceptionOnError_def string_at0_def)

lemma readString_legacy:
  assumes "db this = Some e" "db_Get e key = (Ok, b)" "b \<noteq> []" "hd b \<noteq> CHR ''{''"
  shows "readString rd this key = Inr (Some b)"
  using readString_stored [OF assms(1,2), of rd] assms(3,4)
  by (cases b) auto

lemma empty_value_is_old_style:
  "string_index0 [] \<noteq> CHR ''{'' \<and> format_of [] = Legacy"
  by (simp add: string_index0_def format_of_def)


lemma FastWriter_write_secret:
  \<open>FastWriter_write (record_object ''secret'' 1700000000)
     = ''{"timestamp":"1700000000","value":"secret"}'' @ [CHR 0x0A]\<close>
  by (simp add: FastWriter_write_def record_object_def valueToQuotedString_def escape_char_def
      to_string_def nat_digits.simps digit_char_def)

lemma Reader_parse_secret:
  \<open>Reader_parse (c_str (''{"timestamp":"1700000000","value":"secret"}'' @ [CHR 0x0A]))
     = (True, record_object ''secret'' 1700000000)\<close>
  by (simp add: Reader_parse_def c_str_def isspace_def read_members.simps record_object_def
      to_string_def nat_digits.simps digit_char_def)

theorem write_read_roundtrip_witness:
  "fst (writeString FastWriter_write 1700000000 L0 ''k'' ''secret'') = Inr () \<and>
   hd (FastWriter_write (record_object ''secret'' 1700000000)) = CHR ''{'' \<and>
   snd (Reader_parse (c_str (FastWriter_write (record_object ''secret'' 1700000000))))
     = record_object ''secret'' 1700000000 \<and>
   readString Reader_parse (snd (writeString FastWriter_write 1700000000 L0 ''k'' ''secret'')) ''k''
     = Inr (Some ''secret'')"
proof -
  let ?this' = "snd (writeString FastWriter_write 1700000000 L0 ''k'' ''secret'')"
  have f: "fst (writeString FastWriter_write 1700000000 L0 ''k'' ''secret'') = Inr ()"
    using writeString_ok [of L0 "\<lparr>db_data = [], db_fault = None\<rparr>"
        FastWriter_write 1700000000 "''k''" "''secret''"]
    by (simp add: L0_def)
  then have w: "writeString FastWriter_write 1700000000 L0 ''k'' ''secret'' = (Inr (), ?this')"
    by (simp add: prod_eq_iff)
  have ne: "FastWriter_write (record_object ''secret'' 1700000000) \<noteq> []"
    by (simp add: FastWriter_write_def)
  have mk: "hd (FastWriter_write (record_object ''secret'' 1700000000)) = CHR ''{''"
    by (simp add: FastWriter_write_secret)
  have lib: "snd (Reader_parse (c_str (FastWriter_write (record_object ''secret'' 1700000000))))
               = record_object ''secret'' 1700000000"
    by (simp only: FastWriter_write_secret Reader_parse_secret snd_conv)
  show ?thesis
    using write_read_roundtrip [where wr = FastWriter_write and rd = Reader_parse, OF w ne mk lib]
      f mk lib
    by simp
qed

theorem writeDataUnique_duplicate_witness:
  "fst (writeString FastWriter_write 1700000000 L0 ''k'' ''secret'') = Inr () \<and>
   writeDataUnique Reader_parse FastWriter_write 1700000005
       (snd (writeString FastWriter_write 1700000000 L0 ''k'' ''secret'')) ''k'' ''other''
     = (Inl (SGXException KEY_SHARE_ALREADY_EXISTS ''Data with this name already exists''),
        snd (writeString FastWriter_write 1700000000 L0 ''k'' ''secret'')) \<and>
   readString Reader_parse (snd (writeString FastWriter_write 1700000000 L0 ''k'' ''secret'')) ''k''
     = Inr (Some ''secret'')"
proof -
  let ?this' = "snd (writeString FastWriter_write 1700000000 L0 ''k'' ''secret'')"
  have f: "fst (writeString FastWriter_write 1700000000 L0 ''k'' ''secret'') = Inr ()"
    using writeString_ok [of L0 "\<lparr>db_data = [], db_fault = None\<rparr>"
        FastWriter_write 1700000000 "''k''" "''secret''"]
    by (simp add: L0_def)
  then have w: "writeString FastWriter_write 1700000000 L0 ''k'' ''secret'' = (Inr (), ?this')"
    by (simp add: prod_eq_iff)
  have ne: "FastWriter_write (record_object ''secret'' 1700000000) \<noteq> []"
    by (simp add: FastWriter_write_def)
  have mk: "hd (FastWriter_write (record_object ''secret'' 1700000000)) = CHR ''{''"
    by (simp add: FastWriter_write_secret)
  have lib: "snd (Reader_parse (c_str (FastWriter_write (record_object ''secret'' 1700000000))))
               = record_object ''secret'' 1700000000"
    by (simp only: FastWriter_write_secret Reader_parse_secret snd_conv)
  show ?thesis
    using writeDataUnique_duplicate [where wr = FastWriter_write and rd = Reader_parse
        and ?T2.0 = 1700000005 and ?v2.0 = "''other''", OF w ne mk lib] f
    by (elim conjE) simp
qed

theorem readString_ignores_parse_result_witness:
  \<open>db_Get \<lparr>db_data = [(''k'', ''{"val'')], db_fault = None\<rparr> ''k'' = (Ok, ''{"val'') \<and>
   Reader_parse (c_str ''{"val'') = (False, JObject []) \<and>
   readString Reader_parse \<lparr>db = Some \<lparr>db_data = [(''k'', ''{"val'')], db_fault = None\<rparr>\<rparr> ''k''
     = Inr (Some [])\<close>
proof -
  let ?e = \<open>\<lparr>db_data = [(''k'', ''{"val'')], db_fault = None\<rparr>\<close>
  have g: \<open>db_Get ?e ''k'' = (Ok, ''{"val'')\<close>
    by (simp add: db_Get_def)
  have p: \<open>Reader_parse (c_str ''{"val'') = (False, JObject [])\<close>
    by (simp add: Reader_parse_def c_str_def isspace_def read_members.simps)
  show ?thesis
    using readString_ignores_parse_result [of "\<lparr>db = Some ?e\<rparr>" ?e "''k''" _ Reader_parse, OF _ g _ _ p]
      g p
    by (simp add: json_index_def asString_def)
qed

section \<open>The reference codec round-trips every record\<close>

lemma below_16_cases:
  "(d::nat) < 16 \<Longrightarrow>
     d = 0 \<or> d = 1 \<or> d = 2 \<or> d = 3 \<or> d = 4 \<or> d = 5 \<or> d = 6 \<or> d = 7 \<or>
     d = 8 \<or> d = 9 \<or> d = 10 \<or> d = 11 \<or> d = 12 \<or> d = 13 \<or> d = 14 \<or> d = 15"
  by arith

lemma hex_value_hex_digit: "d < 16 \<Longrightarrow> hex_value (hex_digit d) = Some d"
  by (drule below_16_cases) (elim disjE; simp add: hex_digit_def hex_value_def isdigit_def)

lemma hex_digit_not_NUL: "hex_digit d \<noteq> CHR 0x00"
proof -
  have "d mod 16 < 16" by simp
  then show ?thesis
    unfolding hex_digit_def
    by (drule_tac below_16_cases) (elim disjE; simp)
qed

lemma escape_char_no_NUL: "CHR 0x00 \<notin> set (escape_char c)"
proof -
  have "c \<noteq> CHR 0x00" if "\<not> (of_char c :: nat) < 32"
    using that by auto
  then show ?thesis
    by (auto simp: escape_char_def hex_digit_not_NUL [symmetric])
qed

lemma lex_escape_char:
  "lex_json (InString buf) (escape_char c @ rest) = lex_json (InString (buf @ [c])) rest"
proof -
  consider (named) "c \<in> {CHR 0x22, CHR 0x5C, CHR 0x08, CHR 0x0C, CHR 0x0A, CHR 0x0D, CHR 0x09}"
    | (control) "c \<notin> {CHR 0x22, CHR 0x5C, CHR 0x08, CHR 0x0C, CHR 0x0A, CHR 0x0D, CHR 0x09}"
        "(of_char c :: nat) < 32"
    | (plain) "c \<notin> {CHR 0x22, CHR 0x5C, CHR 0x08, CHR 0x0C, CHR 0x0A, CHR 0x0D, CHR 0x09}"
        "\<not> (of_char c :: nat) < 32"
    by blast
  then show ?thesis
  proof cases
    case named
    then show ?thesis
      by (auto simp: escape_char_def unescape_def)
  next
    case control
    let ?n = "of_char c :: nat"
    have hi: "?n div 16 < 16" and lo: "?n mod 16 < 16" using control(2) by simp_all
    have cp: "code_point [CHR ''0'', CHR ''0'', hex_digit (?n div 16), hex_digit (?n mod 16)]
                = Some ?n"
      using hex_value_hex_digit [OF hi] hex_value_hex_digit [OF lo]
      by (simp add: code_point_def hex_value_def isdigit_def)
    have small: "?n < 128" using control(2) by simp
    show ?thesis
      using control cp small
      by (simp add: escape_char_def)
  next
    case plain
    then show ?thesis
      by (simp add: escape_char_def)
  qed
qed

lemma lex_escaped:
  "lex_json (InString buf) (concat (map escape_char s) @ CHR 0x22 # rest)
     = TString (buf @ s) # lex_json Outside rest"
proof (induction s arbitrary: buf)
  case Nil
  then show ?case by simp
next
  case (Cons c s)
  have "lex_json (InString buf) (concat (map escape_char (c # s)) @ CHR 0x22 # rest)
          = lex_json (InString buf) (escape_char c @ (concat (map escape_char s) @ CHR 0x22 # rest))"
    by simp
  also have "\<dots> = lex_json (InString (buf @ [c])) (concat (map escape_char s) @ CHR 0x22 # rest)"
    by (rule lex_escape_char)
  also have "\<dots> = TString ((buf @ [c]) @ s) # lex_json Outside rest"
    by (rule Cons.IH)
  finally show ?case by simp
qed

lemma lex_valueToQuotedString:
  "lex_json Outside (valueToQuotedString s @ rest) = TString s # lex_json Outside rest"
  using lex_escaped [of "[]" s rest]
  by (simp add: valueToQuotedString_def isspace_def)

lemma valueToQuotedString_no_NUL: "CHR 0x00 \<notin> set (valueToQuotedString s)"
  using escape_char_no_NUL by (auto simp: valueToQuotedString_def)

lemma FastWriter_write_record_object:
  "FastWriter_write (record_object P T) =
     CHR ''{'' # valueToQuotedString ''timestamp'' @ CHR '':'' # valueToQuotedString (to_string T)
       @ CHR '','' # valueToQuotedString ''value'' @ CHR '':'' # valueToQuotedString P
       @ [CHR ''}'', CHR 0x0A]"
  by (simp add: FastWriter_write_def record_object_def)

lemma c_str_no_NUL: "CHR 0x00 \<notin> set s \<Longrightarrow> c_str s = s"
  by (auto simp: c_str_def takeWhile_eq_all_conv)

lemma FastWriter_write_no_NUL: "c_str (FastWriter_write (record_object P T)) = FastWriter_write (record_object P T)"
  by (rule c_str_no_NUL) (simp add: FastWriter_write_record_object valueToQuotedString_no_NUL)

lemma lex_record_object:
  "lex_json Outside (FastWriter_write (record_object P T)) =
     [TObjectBegin, TString ''timestamp'', TMemberSeparator, TString (to_string T),
      TArraySeparator, TString ''value'', TMemberSeparator, TString P, TObjectEnd]"
  by (simp add: FastWriter_write_record_object lex_valueToQuotedString isspace_def)

text \<open>
  The reference codec meets the library contract of C1 and C5 for every payload and every
  time, so a write with it is read back unchanged.
\<close>

lemma reference_codec_roundtrip:
  "FastWriter_write (record_object P T) \<noteq> [] \<and>
   hd (FastWriter_write (record_object P T)) = CHR ''{'' \<and>
   Reader_parse (c_str (FastWriter_write (record_object P T))) = (True, record_object P T)"
proof -
  have 1: "FastWriter_write (record_object P T) \<noteq> []"
    by (simp add: FastWriter_write_def)
  have 2: "hd (FastWriter_write (record_object P T)) = CHR ''{''"
    by (simp add: FastWriter_write_record_object)
  have "Reader_parse (c_str (FastWriter_write (record_object P T)))
          = read_members [] [TString ''timestamp'', TMemberSeparator, TString (to_string T),
              TArraySeparator, TString ''value'', TMemberSeparator, TString P, TObjectEnd]"
    by (simp add: Reader_parse_def FastWriter_write_no_NUL lex_record_object)
  also have "\<dots> = (True, record_object P T)"
    by (simp add: read_members.simps record_object_def)
  finally show ?thesis using 1 2 by simp
qed

lemma reference_store_roundtrip:
  assumes "writeString FastWriter_write T this key P = (Inr (), this')"
  shows "readString Reader_parse this' key = Inr (Some P)"
proof -
  note rt = reference_codec_roundtrip [of P T]
  have lib: "snd (Reader_parse (c_str (FastWriter_write (record_object P T)))) = record_object P T"
    using rt by simp
  obtain e where e: "db this = Some e" "db_fault e = None"
    and this': "this' = this\<lparr>db := Some (e\<lparr>db_data := upsert key (FastWriter_write (record_object P T)) (db_data e)\<rparr>)\<rparr>"
    using writeString_Inr [OF assms] by blast
  let ?b = "FastWriter_write (record_object P T)"
  let ?e' = "e\<lparr>db_data := upsert key ?b (db_data e)\<rparr>"
  have d: "db this' = Some ?e'" using this' by simp
  have g: "db_Get ?e' key = (Ok, ?b)" using e(2) by (rule db_Get_after_Put)
  obtain c cs where b: "?b = c # cs" using rt by (cases ?b) auto
  with rt have c: "c = CHR ''{''" by simp
  show ?thesis
    using readString_stored [OF d g, of Reader_parse] b c
      readNewStyleValue_record_object [of Reader_parse ?b P T] lib
    by simp
qed

section \<open>Properties of the scans\<close>

lemma versioned_timestamps_Nil [simp]: "versioned_timestamps rd [] = []"
  by (simp add: versioned_timestamps_def map_filter_simps)

lemma versioned_timestamps_Cons:
  "versioned_timestamps rd (kv # es) =
     (if format_of (snd kv) = Versioned
      then (case record_timestamp rd (snd kv) of
              Inl _ \<Rightarrow> versioned_timestamps rd es
            | Inr t \<Rightarrow> (fst kv, t) # versioned_timestamps rd es)
      else versioned_timestamps rd es)"
  by (simp add: versioned_timestamps_def map_filter_simps split: sum.splits)

lemma latest_loop_latest_from:
  assumes "\<forall>kv \<in> set es. format_of (snd kv) = Versioned \<longrightarrow> (\<exists>t. record_timestamp rd (snd kv) = Inr t)"
  shows "latest_loop rd es t0 n0 = Inr (latest_from (versioned_timestamps rd es) t0 n0)"
  using assms
proof (induction es arbitrary: t0 n0)
  case Nil
  then show ?case by simp
next
  case (Cons kv es)
  show ?case
  proof (cases "format_of (snd kv) = Versioned")
    case True
    then obtain t where t: "record_timestamp rd (snd kv) = Inr t"
      using Cons.prems by auto
    have m: "string_index0 (snd kv) = CHR ''{''"
      using True by (simp add: format_of_def split: if_splits)
    show ?thesis
      using Cons.IH Cons.prems True t m
      by (simp add: versioned_timestamps_Cons)
  next
    case False
    then have m: "string_index0 (snd kv) \<noteq> CHR ''{''"
      by (simp add: format_of_def split: if_splits)
    show ?thesis
      using Cons.IH Cons.prems False m
      by (simp add: versioned_timestamps_Cons)
  qed
qed

lemma latest_from_le:
  "\<forall>p \<in> set vs. snd p \<le> t \<Longrightarrow> latest_from vs t n = (n, t)"
  by (induction vs arbitrary: t n) auto

lemma latest_from_max:
  assumes "\<exists>p \<in> set vs. t < snd p"
  shows "\<exists>k. find (\<lambda>p. snd p = Max (snd ` set vs)) vs = Some (k, Max (snd ` set vs)) \<and>
             latest_from vs t n = (k, Max (snd ` set vs))"
  using assms
proof (induction vs arbitrary: t n)
  case Nil
  then show ?case by simp
next
  case (Cons p ps)
  obtain k t' where p: "p = (k, t')" by (cases p)
  show ?case
  proof (cases "\<exists>q \<in> set ps. max t t' < snd q")
    case True
    then have nonempty: "ps \<noteq> []" by auto
    from True obtain q where q: "q \<in> set ps" "max t t' < snd q" by blast
    have "snd q \<le> Max (snd ` set ps)" using q(1) by simp
    then have big: "t' < Max (snd ` set ps)" using q(2) by simp
    have M: "Max (snd ` set (p # ps)) = Max (snd ` set ps)"
      using nonempty big p by (simp add: max_def)
    have ne: "t' \<noteq> Max (snd ` set ps)" using big by simp
    show ?thesis
    proof (cases "t < t'")
      case True
      have "\<exists>q \<in> set ps. t' < snd q" using q by auto
      from Cons.IH [OF this, of k] True p M ne show ?thesis by simp
    next
      case False
      have "\<exists>q \<in> set ps. t < snd q" using q by auto
      from Cons.IH [OF this, of n] False p M ne show ?thesis by simp
    qed
  next
    case False
    then have le: "\<forall>q \<in> set ps. snd q \<le> max t t'" by auto
    have tt: "t < t'"
      using Cons.prems le p by (auto simp: max_def split: if_splits)
    then have le': "\<forall>q \<in> set ps. snd q \<le> t'" using le by (simp add: max_def)
    have M: "Max (snd ` set (p # ps)) = t'"
      using le' p by (auto intro!: Max_eqI)
    show ?thesis
      using tt p M latest_from_le [OF le'] by simp
  qed
qed

text \<open>
  Claim C6, as amended. Suppose \<^verbatim>\<open>std::stoi\<close> converts the timestamp of every
  Versioned record of the store. \<^verbatim>\<open>getLatestCreatedKey\<close> skips the Legacy records. When
  no Versioned record has a timestamp above zero (in particular when there is none) it
  returns the empty key and zero; otherwise it returns the maximum timestamp and the key of
  the first record, in scan order, that carries it.
\<close>

theorem getLatestCreatedKey_latest:
  assumes "db this = Some e"
    and "db_fault e = None"
    and "\<forall>kv \<in> set (db_data e).
           format_of (snd kv) = Versioned \<longrightarrow> (\<exists>t. record_timestamp rd (snd kv) = Inr t)"
  shows "((\<forall>p \<in> set (versioned_timestamps rd (db_data e)). snd p \<le> 0) \<longrightarrow>
            getLatestCreatedKey rd this = Inr ([], 0)) \<and>
         ((\<exists>p \<in> set (versioned_timestamps rd (db_data e)). 0 < snd p) \<longrightarrow>
            (\<exists>k. find (\<lambda>p. snd p = Max (snd ` set (versioned_timestamps rd (db_data e))))
                       (versioned_timestamps rd (db_data e))
                    = Some (k, Max (snd ` set (versioned_timestamps rd (db_data e)))) \<and>
                 getLatestCreatedKey rd this
                   = Inr (k, word_of_int (Max (snd ` set (versioned_timestamps rd (db_data e)))))))"
proof -
  let ?vs = "versioned_timestamps rd (db_data e)"
  have loop: "latest_loop rd (db_iterate e) 0 [] = Inr (latest_from ?vs 0 [])"
    using latest_loop_latest_from [OF assms(3)] assms(2) by (simp add: db_iterate_def)
  have 1: "getLatestCreatedKey rd this = Inr ([], 0)" if "\<forall>p \<in> set ?vs. snd p \<le> 0"
    using loop latest_from_le [OF that, of "[]"] assms(1)
    by (simp add: getLatestCreatedKey_def)
  have 2: "\<exists>k. find (\<lambda>p. snd p = Max (snd ` set ?vs)) ?vs = Some (k, Max (snd ` set ?vs)) \<and>
               getLatestCreatedKey rd this = Inr (k, word_of_int (Max (snd ` set ?vs)))"
    if pos: "\<exists>p \<in> set ?vs. 0 < snd p"
  proof -
    obtain k where k: "find (\<lambda>p. snd p = Max (snd ` set ?vs)) ?vs = Some (k, Max (snd ` set ?vs))"
      "latest_from ?vs 0 [] = (k, Max (snd ` set ?vs))"
      using latest_from_max [OF pos, of "[]"] by blast
    show ?thesis
      using k loop assms(1) by (simp add: getLatestCreatedKey_def)
  qed
  show ?thesis using 1 2 by blast
qed

lemma record_timestamp_epoch:
  \<open>record_timestamp Reader_parse (''{"timestamp":"0","value":"x"}'' @ [CHR 0x0A]) = Inr 0\<close>
  by (simp add: record_timestamp_def Reader_parse_def c_str_def isspace_def read_members.simps
      json_index_def asString_def stoi_def isdigit_def digits_value_def digit_value_def)

text \<open>
  A store whose only record is Versioned with timestamp 0: the answer is the empty key,
  not the key of that record.
\<close>

theorem getLatestCreatedKey_epoch_counterexample:
  \<open>format_of (''{"timestamp":"0","value":"x"}'' @ [CHR 0x0A]) = Versioned \<and>
   record_timestamp Reader_parse (''{"timestamp":"0","value":"x"}'' @ [CHR 0x0A]) = Inr 0 \<and>
   getLatestCreatedKey Reader_parse epoch_store = Inr ([], 0) \<and>
   getLatestCreatedKey Reader_parse epoch_store \<noteq> Inr (''k'', 0)\<close>
  by (simp add: format_of_def string_index0_def epoch_store_def
      getLatestCreatedKey_def db_iterate_def
      record_timestamp_def Reader_parse_def c_str_def isspace_def read_members.simps
      json_index_def asString_def stoi_def isdigit_def digits_value_def digit_value_def)

lemma record_timestamp_three:
  \<open>record_timestamp Reader_parse ''{"timestamp":"10","value":"x"}'' = Inr 10\<close>
  \<open>record_timestamp Reader_parse ''{"timestamp":"30","value":"y"}'' = Inr 30\<close>
  \<open>record_timestamp Reader_parse ''{"timestamp":"20","value":"z"}'' = Inr 20\<close>
  by (simp_all add: record_timestamp_def Reader_parse_def c_str_def isspace_def read_members.simps
      json_index_def asString_def stoi_def isdigit_def digits_value_def digit_value_def)

lemma versioned_timestamps_three:
  "versioned_timestamps Reader_parse (db_data (the (db three_store)))
     = [(''a'', 10), (''b'', 30), (''c'', 20)]"
  by (simp add: three_store_def versioned_timestamps_Cons format_of_def string_index0_def
      record_timestamp_three)

theorem getLatestCreatedKey_latest_witness:
  "versioned_timestamps Reader_parse (db_data (the (db three_store)))
     = [(''a'', 10), (''b'', 30), (''c'', 20)] \<and>
   getLatestCreatedKey Reader_parse three_store = Inr (''b'', 30)"
proof -
  let ?e = "the (db three_store)"
  have d: "db three_store = Some ?e" by (simp add: three_store_def)
  have f: "db_fault ?e = None" by (simp add: three_store_def)
  have h: "\<forall>kv \<in> set (db_data ?e).
           format_of (snd kv) = Versioned \<longrightarrow> (\<exists>t. record_timestamp Reader_parse (snd kv) = Inr t)"
    by (simp add: three_store_def record_timestamp_three format_of_def string_index0_def)
  show ?thesis
    using getLatestCreatedKey_latest [OF d f h]
    by (simp add: versioned_timestamps_three)
qed

text \<open>
  With a bound \<open>N\<close> of at least 1 on a store of more than \<open>N\<close> keys, both traversals
  stop after exactly the first \<open>N\<close> keys.
\<close>

lemma unat_succ_below:
  fixes rc N :: uint64
  assumes "unat rc < unat N"
  shows "unat (rc + 1) = Suc (unat rc)"
proof -
  have "unat N < 2 ^ 64" using unsigned_less [of N] by simp
  then have "unat rc + 1 < 2 ^ 64" using assms by simp
  then show ?thesis by (simp add: unat_word_ariths)
qed

lemma visit_loop_count:
  fixes rc N :: uint64
  assumes "unat rc < unat N" "unat N - unat rc \<le> length es"
  shows "visit_loop f N es rc s
           = (N, fold f (take (unat N - unat rc) (map (\<lambda>kv. c_str (fst kv)) es)) s)"
  using assms
proof (induction es arbitrary: rc s)
  case Nil
  then show ?case by simp
next
  case (Cons kv es)
  have u: "unat (rc + 1) = Suc (unat rc)" using Cons.prems(1) by (rule unat_succ_below)
  show ?case
  proof (cases "N \<le> rc + 1")
    case True
    then have "unat N \<le> Suc (unat rc)" using u by (simp add: word_le_nat_alt)
    then have eq: "unat N = Suc (unat rc)" using Cons.prems(1) by simp
    then have "rc + 1 = N" using u by (simp add: word_unat_eq_iff)
    with True eq show ?thesis by (simp add: Let_def)
  next
    case False
    then have lt: "unat (rc + 1) < unat N" by (simp add: word_le_nat_alt)
    have len: "unat N - unat (rc + 1) \<le> length es" using Cons.prems(2) u by simp
    have d: "unat N - unat rc = Suc (unat N - unat (rc + 1))" using lt u by simp
    show ?thesis
      using False Cons.IH [OF lt len, of "f (c_str (fst kv)) s"]
      by (simp add: Let_def d)
  qed
qed

lemma collect_loop_count:
  fixes rc N :: uint64
  assumes "unat rc < unat N" "unat N - unat rc \<le> length es"
  shows "collect_loop N es rc keys = keys @ take (unat N - unat rc) (map fst es)"
  using assms
proof (induction es arbitrary: rc keys)
  case Nil
  then show ?case by simp
next
  case (Cons kv es)
  have u: "unat (rc + 1) = Suc (unat rc)" using Cons.prems(1) by (rule unat_succ_below)
  show ?case
  proof (cases "N \<le> rc + 1")
    case True
    then have "unat N \<le> Suc (unat rc)" using u by (simp add: word_le_nat_alt)
    then have eq: "unat N = Suc (unat rc)" using Cons.prems(1) by simp
    with True show ?thesis by (simp add: Let_def)
  next
    case False
    then have lt: "unat (rc + 1) < unat N" by (simp add: word_le_nat_alt)
    have len: "unat N - unat (rc + 1) \<le> length es" using Cons.prems(2) u by simp
    have d: "unat N - unat rc = Suc (unat N - unat (rc + 1))" using lt u by simp
    show ?thesis
      using False Cons.IH [OF lt len, of "keys @ [fst kv]"]
      by (simp add: Let_def d)
  qed
qed

lemma visitKeys_bounded:
  assumes "db this = Some e" "db_fault e = None"
    and "1 \<le> unat N" "unat N < length (db_data e)"
  shows "visitKeys this (Some v) N
           = Inr (N, v\<lparr>visitor_state :=
                        fold (visitDBKey v)
                          (take (unat N) (map (\<lambda>kv. c_str (fst kv)) (db_data e)))
                          (visitor_state v)\<rparr>)"
    and "writeKeysToVector1 this N = Inr (take (unat N) (map fst (db_data e)))"
proof -
  have z: "unat (0 :: uint64) < unat N" using assms(3) by simp
  have l: "unat N - unat (0 :: uint64) \<le> length (db_data e)" using assms(4) by simp
  show "visitKeys this (Some v) N
           = Inr (N, v\<lparr>visitor_state :=
                        fold (visitDBKey v)
                          (take (unat N) (map (\<lambda>kv. c_str (fst kv)) (db_data e)))
                          (visitor_state v)\<rparr>)"
    using visit_loop_count [OF z l, of "visitDBKey v" "visitor_state v"] assms(1,2)
    by (simp add: visitKeys_def db_iterate_def)
  show "writeKeysToVector1 this N = Inr (take (unat N) (map fst (db_data e)))"
    using collect_loop_count [OF z l, of "[]"] assms(1,2)
    by (simp add: writeKeysToVector1_def db_iterate_def)
qed

text \<open>
  Claim C7 at the bound 0: on a store of two keys \<^verbatim>\<open>visitKeys\<close> visits the first key
  and returns 1, and \<^verbatim>\<open>writeKeysToVector1\<close> collects one key; the bound 1 gives the
  same result.
\<close>

theorem visitKeys_zero_bound:
  "visitKeys two_key_store (Some recording_visitor) 0
     = Inr (1, recording_visitor\<lparr>visitor_state := [''a'']\<rparr>) \<and>
   writeKeysToVector1 two_key_store 0 = Inr [''a'']"
  by (simp add: visitKeys_def writeKeysToVector1_def two_key_store_def recording_visitor_def
      db_iterate_def Let_def c_str_def)

lemma visitKeys_one_bound:
  "visitKeys two_key_store (Some recording_visitor) 1
     = Inr (1, recording_visitor\<lparr>visitor_state := [''a'']\<rparr>) \<and>
   writeKeysToVector1 two_key_store 1 = Inr [''a'']"
  by (simp add: visitKeys_def writeKeysToVector1_def two_key_store_def recording_visitor_def
      db_iterate_def Let_def c_str_def)

section \<open>Properties of the registry\<close>

lemma new_LevelDB_cases:
  "new_LevelDB env f = Inr d \<Longrightarrow> db d \<noteq> None"
  by (auto simp: new_LevelDB_def split: prod.splits if_splits)

text \<open>The function, with its steps named.\<close>

lemma initDataFolderAndDBs_steps:
  "initDataFolderAndDBs env r =
     (if isInited r then (Inl InvalidStateException, r)
      else case env_getcwd env of
             None \<Rightarrow>
               (Inl (SGXException COULD_NOT_GET_WORKING_DIRECTORY
                       ''Could not get current working directory.''), r\<lparr>isInited := True\<rparr>)
           | Some cwd \<Rightarrow>
               if \<not> folder_ready env cwd
               then (Inl (SGXException ERROR_CREATING_SGX_DATA_FOLDER
                            ''Could not create sgx_data folder.''),
                     r\<lparr>isInited := True, sgx_data_folder := data_folder env cwd\<rparr>)
               else case open_wallet env cwd of
                      Inl e1 \<Rightarrow> (Inl e1, r\<lparr>isInited := True, sgx_data_folder := data_folder env cwd\<rparr>)
                    | Inr d1 \<Rightarrow>
                        (case open_csr env cwd of
                           Inl e2 \<Rightarrow>
                             (Inl e2, r\<lparr>isInited := True, sgx_data_folder := data_folder env cwd,
                                        levelDb := Some d1\<rparr>)
                         | Inr d2 \<Rightarrow>
                             (case open_csr_status env cwd of
                                Inl e3 \<Rightarrow>
                                  (Inl e3, r\<lparr>isInited := True,
                                             sgx_data_folder := data_folder env cwd,
                                             levelDb := Some d1, csrDb := Some d2\<rparr>)
                              | Inr d3 \<Rightarrow>
                                  (Inr (), r\<lparr>isInited := True,
                                             sgx_data_folder := data_folder env cwd,
                                             levelDb := Some d1, csrDb := Some d2,
                                             csrStatusDb := Some d3\<rparr>))))"
  by (simp add: initDataFolderAndDBs_def Let_def folder_ready_def data_folder_def
      open_wallet_def open_csr_def open_csr_status_def split: option.splits sum.splits)

text \<open>
  Claim C4, as amended. When \<^verbatim>\<open>initDataFolderAndDBs\<close> fails on a registry that was not
  initialised, nothing is rolled back. \<open>isInited\<close> stays set, so that a later call fails
  the \<^verbatim>\<open>CHECK_STATE(!isInited)\<close> test, and \<open>csrStatusDb\<close> is untouched. Step by step:
  if \<^verbatim>\<open>getcwd\<close> fails, no other field changes; if the folder cannot be created, or the
  wallet store cannot be opened, \<open>levelDb\<close> and \<open>csrDb\<close> keep their values; if the
  wallet store was opened, \<open>levelDb\<close> holds it and its getter returns it, whatever fails
  later; and if the CSR store was opened as well, \<open>csrDb\<close> holds it, its getter returns
  it, and the error is that of the status store's constructor.
\<close>

theorem initDataFolderAndDBs_failure:
  assumes "\<not> isInited r"
    and "initDataFolderAndDBs env r = (Inl err, r')"
  shows "isInited r' \<and>
         fst (initDataFolderAndDBs env' r') = Inl InvalidStateException \<and>
         csrStatusDb r' = csrStatusDb r \<and>
         (env_getcwd env = None \<longrightarrow>
            levelDb r' = levelDb r \<and> csrDb r' = csrDb r \<and>
            sgx_data_folder r' = sgx_data_folder r) \<and>
         (\<forall>cwd. env_getcwd env = Some cwd \<longrightarrow>
            sgx_data_folder r' = data_folder env cwd \<and>
            (\<not> folder_ready env cwd \<longrightarrow>
               err = SGXException ERROR_CREATING_SGX_DATA_FOLDER
                       ''Could not create sgx_data folder.'' \<and>
               levelDb r' = levelDb r \<and> csrDb r' = csrDb r) \<and>
            (folder_ready env cwd \<longrightarrow>
               (\<forall>e1. open_wallet env cwd = Inl e1 \<longrightarrow>
                  err = e1 \<and> levelDb r' = levelDb r \<and> csrDb r' = csrDb r) \<and>
               (\<forall>d1. open_wallet env cwd = Inr d1 \<longrightarrow>
                  levelDb r' = Some d1 \<and> getLevelDb r' = Inr d1 \<and>
                  (\<forall>e2. open_csr env cwd = Inl e2 \<longrightarrow> err = e2 \<and> csrDb r' = csrDb r) \<and>
                  (\<forall>d2. open_csr env cwd = Inr d2 \<longrightarrow>
                     csrDb r' = Some d2 \<and> getCsrDb r' = Inr d2 \<and>
                     open_csr_status env cwd = Inl err))))"
proof -
  note steps = initDataFolderAndDBs_steps [of env r]
  have i: "isInited r'"
    using assms unfolding steps by (auto split: option.splits if_splits sum.splits)
  then have again: "fst (initDataFolderAndDBs env' r') = Inl InvalidStateException"
    by (simp add: initDataFolderAndDBs_def)
  have s: "csrStatusDb r' = csrStatusDb r"
    using assms unfolding steps by (auto split: option.splits if_splits sum.splits)
  have a: "levelDb r' = levelDb r \<and> csrDb r' = csrDb r \<and> sgx_data_folder r' = sgx_data_folder r"
    if "env_getcwd env = None"
    using assms that unfolding steps by auto
  have b: "sgx_data_folder r' = data_folder env cwd" if "env_getcwd env = Some cwd" for cwd
    using assms that unfolding steps by (auto split: if_splits sum.splits)
  have c: "err = SGXException ERROR_CREATING_SGX_DATA_FOLDER ''Could not create sgx_data folder.''
             \<and> levelDb r' = levelDb r \<and> csrDb r' = csrDb r"
    if "env_getcwd env = Some cwd" "\<not> folder_ready env cwd" for cwd
    using assms that unfolding steps by auto
  have d: "err = e1 \<and> levelDb r' = levelDb r \<and> csrDb r' = csrDb r"
    if "env_getcwd env = Some cwd" "folder_ready env cwd" "open_wallet env cwd = Inl e1"
    for cwd e1
    using assms that unfolding steps by auto
  have e: "levelDb r' = Some d1 \<and> getLevelDb r' = Inr d1"
    if "env_getcwd env = Some cwd" "folder_ready env cwd" "open_wallet env cwd = Inr d1"
    for cwd d1
    using assms that unfolding steps by (auto simp: getLevelDb_def split: sum.splits)
  have f: "err = e2 \<and> csrDb r' = csrDb r"
    if "env_getcwd env = Some cwd" "folder_ready env cwd" "open_wallet env cwd = Inr d1"
      "open_csr env cwd = Inl e2"
    for cwd d1 e2
    using assms that unfolding steps by auto
  have g: "csrDb r' = Some d2 \<and> getCsrDb r' = Inr d2 \<and> open_csr_status env cwd = Inl err"
    if "env_getcwd env = Some cwd" "folder_ready env cwd" "open_wallet env cwd = Inr d1"
      "open_csr env cwd = Inr d2"
    for cwd d1 d2
    using assms that unfolding steps by (auto simp: getCsrDb_def split: sum.splits)
  show ?thesis using i again s a b c d e f g by blast
qed

text \<open>A run that returns normally leaves all three stores open.\<close>

lemma initDataFolderAndDBs_success:
  assumes "initDataFolderAndDBs env r = (Inr (), r')"
  shows "isInited r' \<and> (\<exists>d1 d2 d3. getLevelDb r' = Inr d1 \<and> getCsrDb r' = Inr d2 \<and>
           getCsrStatusDb r' = Inr d3)"
  using assms
  by (auto simp: initDataFolderAndDBs_def Let_def getLevelDb_def getCsrDb_def getCsrStatusDb_def
      split: option.splits if_splits sum.splits)

lemma initDataFolderAndDBs_failing_env:
  "initDataFolderAndDBs failing_env registry_initial =
     (Inl (Std_runtime_error ''Unable to open levelDB database''),
      \<lparr>isInited = True,
       levelDb = Some \<lparr>db = Some \<lparr>db_data = [], db_fault = None\<rparr>\<rparr>,
       csrDb = Some \<lparr>db = Some \<lparr>db_data = [], db_fault = None\<rparr>\<rparr>,
       csrStatusDb = None,
       sgx_data_folder = ''/home/sgx/sgx_data/''\<rparr>)"
  by (simp add: initDataFolderAndDBs_def failing_env_def registry_initial_def new_LevelDB_def
      Let_def c_str_def)

text \<open>
  The third open fails: the call throws, \<open>isInited\<close> is set, the wallet store is open
  and returned by its getter, and the status store is not.
\<close>

theorem initDataFolderAndDBs_partial_counterexample:
  "fst (initDataFolderAndDBs failing_env registry_initial)
     = Inl (Std_runtime_error ''Unable to open levelDB database'') \<and>
   isInited (snd (initDataFolderAndDBs failing_env registry_initial)) \<and>
   getLevelDb (snd (initDataFolderAndDBs failing_env registry_initial))
     = Inr \<lparr>db = Some \<lparr>db_data = [], db_fault = None\<rparr>\<rparr> \<and>
   getCsrStatusDb (snd (initDataFolderAndDBs failing_env registry_initial))
     = Inl InvalidStateException"
  by (simp add: initDataFolderAndDBs_failing_env getLevelDb_def getCsrStatusDb_def)

theorem initDataFolderAndDBs_failure_witness:
  "\<not> isInited registry_initial \<and>
   fst (initDataFolderAndDBs failing_env registry_initial)
     = Inl (Std_runtime_error ''Unable to open levelDB database'') \<and>
   env_getcwd failing_env = Some ''/home/sgx'' \<and>
   folder_ready failing_env ''/home/sgx'' \<and>
   open_wallet failing_env ''/home/sgx'' = Inr \<lparr>db = Some \<lparr>db_data = [], db_fault = None\<rparr>\<rparr> \<and>
   open_csr failing_env ''/home/sgx'' = Inr \<lparr>db = Some \<lparr>db_data = [], db_fault = None\<rparr>\<rparr> \<and>
   isInited (snd (initDataFolderAndDBs failing_env registry_initial)) \<and>
   fst (initDataFolderAndDBs failing_env (snd (initDataFolderAndDBs failing_env registry_initial)))
     = Inl InvalidStateException \<and>
   getLevelDb (snd (initDataFolderAndDBs failing_env registry_initial))
     = Inr \<lparr>db = Some \<lparr>db_data = [], db_fault = None\<rparr>\<rparr> \<and>
   getCsrDb (snd (initDataFolderAndDBs failing_env registry_initial))
     = Inr \<lparr>db = Some \<lparr>db_data = [], db_fault = None\<rparr>\<rparr> \<and>
   open_csr_status failing_env ''/home/sgx''
     = Inl (Std_runtime_error ''Unable to open levelDB database'')"
proof -
  let ?r' = "snd (initDataFolderAndDBs failing_env registry_initial)"
  let ?d = "\<lparr>db = Some \<lparr>db_data = [], db_fault = None\<rparr>\<rparr>"
  have n: "\<not> isInited registry_initial" by (simp add: registry_initial_def)
  have run: "initDataFolderAndDBs failing_env registry_initial
               = (Inl (Std_runtime_error ''Unable to open levelDB database''), ?r')"
    by (simp add: initDataFolderAndDBs_failing_env)
  have cwd: "env_getcwd failing_env = Some ''/home/sgx''" by (simp add: failing_env_def)
  have ready: "folder_ready failing_env ''/home/sgx''"
    by (simp add: folder_ready_def failing_env_def)
  have w: "open_wallet failing_env ''/home/sgx'' = Inr ?d"
    by (simp add: open_wallet_def data_folder_def new_LevelDB_def failing_env_def)
  have c: "open_csr failing_env ''/home/sgx'' = Inr ?d"
    by (simp add: open_csr_def data_folder_def new_LevelDB_def failing_env_def)
  note t = initDataFolderAndDBs_failure [OF n run, of failing_env]
  have 1: "isInited ?r'" and 2: "fst (initDataFolderAndDBs failing_env ?r') = Inl InvalidStateException"
    using t by blast+
  have 3: "getLevelDb ?r' = Inr ?d" using t cwd ready w by blast
  have 4: "getCsrDb ?r' = Inr ?d \<and>
           open_csr_status failing_env ''/home/sgx''
             = Inl (Std_runtime_error ''Unable to open levelDB database'')"
    using t cwd ready w c by blast
  have 0: "fst (initDataFolderAndDBs failing_env registry_initial)
             = Inl (Std_runtime_error ''Unable to open levelDB database'')"
    by (simp add: initDataFolderAndDBs_failing_env)
  show ?thesis using n 0 cwd ready w c 1 2 3 4 by simp
qed

section \<open>Properties of the LRU cache\<close>

lemma consistent_length:
  assumes "consistent xs m n"
  shows "length m = length xs"
proof -
  let ?f = "\<lambda>node::nat \<times> 'a \<times> 'b. (fst (snd node), fst node)"
  have d1: "distinct m"
    using assms unfolding consistent_def by (metis distinct_map)
  have d2: "distinct xs"
    using assms unfolding consistent_def by (metis distinct_map)
  have "inj_on fst (set xs)"
    using assms unfolding consistent_def by (metis distinct_map)
  then have inj: "inj_on ?f (set xs)"
    by (auto intro!: inj_onI dest: inj_onD)
  have dm: "distinct (map fst m)"
    using assms unfolding consistent_def by simp
  have eq: "set m = ?f ` set xs"
  proof (rule set_eqI)
    fix p :: "'a \<times> nat"
    obtain k i where p: "p = (k, i)" by (cases p)
    have "p \<in> set m \<longleftrightarrow> map_of m k = Some i"
      using dm p by simp
    also have "\<dots> \<longleftrightarrow> (\<exists>v. (i, k, v) \<in> set xs)"
      using assms unfolding consistent_def by simp
    also have "\<dots> \<longleftrightarrow> p \<in> ?f ` set xs"
      using p by (force simp: image_iff)
    finally show "p \<in> set m \<longleftrightarrow> p \<in> ?f ` set xs" .
  qed
  have "length m = card (set m)"
    using d1 by (simp add: distinct_card)
  also have "\<dots> = card (?f ` set xs)"
    using eq by simp
  also have "\<dots> = card (set xs)"
    using inj by (rule card_image)
  also have "\<dots> = length xs"
    using d2 by (simp add: distinct_card)
  finally show ?thesis .
qed

lemma consistent_absent:
  assumes "consistent xs m n" "map_of m key = None"
  shows "key \<notin> (fst \<circ> snd) ` set xs"
proof
  assume "key \<in> (fst \<circ> snd) ` set xs"
  then obtain i v where "(i, key, v) \<in> set xs" by auto
  then have "map_of m key = Some i"
    using assms(1) unfolding consistent_def by blast
  with assms(2) show False by simp
qed

lemma consistent_push:
  assumes "consistent xs m n" "map_of m key = None"
  shows "consistent ((n, key, val) # xs) (AList.update key n m) (Suc n)"
proof -
  have fresh: "n \<notin> fst ` set xs"
    using assms(1) unfolding consistent_def by auto
  have absent: "key \<notin> (fst \<circ> snd) ` set xs"
    using assms by (rule consistent_absent)
  have "\<forall>k i. map_of (AList.update key n m) k = Some i
          \<longleftrightarrow> (\<exists>v. (i, k, v) \<in> set ((n, key, val) # xs))"
    using assms absent unfolding consistent_def
    by (auto simp: update_conv' image_iff)
  moreover have "\<forall>node \<in> set ((n, key, val) # xs). fst node < Suc n"
    using assms(1) unfolding consistent_def by (auto simp: less_Suc_eq)
  ultimately show ?thesis
    using assms(1) fresh absent unfolding consistent_def
    by (simp add: distinct_update)
qed

lemma consistent_erase:
  assumes "consistent xs m n" "map_of m key = Some i"
  shows "consistent (list_erase i xs) (AList.delete key m) n"
    and "map_of (AList.delete key m) key = None"
proof -
  obtain v0 where node: "(i, key, v0) \<in> set xs"
    using assms unfolding consistent_def by blast
  have di: "distinct (map fst xs)" and dk: "distinct (map (fst \<circ> snd) xs)"
    using assms(1) unfolding consistent_def by simp_all
  have same: "\<And>j k v. (j, k, v) \<in> set xs \<Longrightarrow> (j = i) = (k = key)"
  proof -
    fix j k v assume a: "(j, k, v) \<in> set xs"
    have "inj_on fst (set xs)" using di by (simp add: distinct_map)
    moreover have "inj_on (fst \<circ> snd) (set xs)" using dk by (simp add: distinct_map)
    ultimately show "(j = i) = (k = key)"
      using a node
        inj_onD [of fst "set xs" "(j, k, v)" "(i, key, v0)"]
        inj_onD [of "fst \<circ> snd" "set xs" "(j, k, v)" "(i, key, v0)"]
      by auto
  qed
  have "\<forall>k j. map_of (AList.delete key m) k = Some j
          \<longleftrightarrow> (\<exists>v. (j, k, v) \<in> set (list_erase i xs))"
    using assms(1) same unfolding consistent_def list_erase_def
    by (auto simp: delete_conv')
  then show "consistent (list_erase i xs) (AList.delete key m) n"
    using assms(1) unfolding consistent_def list_erase_def
    by (simp add: distinct_delete distinct_map_filter)
  show "map_of (AList.delete key m) key = None"
    by (simp add: delete_conv')
qed

lemma consistent_evict:
  assumes "consistent xs m n" "xs \<noteq> []"
  shows "consistent (butlast xs) (AList.delete (fst (snd (last xs))) m) n"
proof -
  obtain ys j kl vl where xs: "xs = ys @ [(j, kl, vl)]"
    using assms(2) by (metis append_butlast_last_id surj_pair)
  have "\<forall>k i. map_of (AList.delete kl m) k = Some i \<longleftrightarrow> (\<exists>v. (i, k, v) \<in> set ys)"
    using assms(1) unfolding consistent_def xs
    by (auto simp: delete_conv' image_iff) 
  then show ?thesis
    using assms(1) unfolding consistent_def xs
    by (simp add: distinct_delete)
qed


lemma wf_new_lru_cache: "wf_cache (new_lru_cache n)"
  by (simp add: wf_cache_def consistent_def new_lru_cache_def)

lemma length_list_erase:
  "distinct (map fst xs) \<Longrightarrow> i \<in> fst ` set xs \<Longrightarrow> Suc (length (list_erase i xs)) = length xs"
proof (induction xs)
  case Nil
  then show ?case by simp
next
  case (Cons x xs)
  show ?case
  proof (cases "fst x = i")
    case True
    then have "i \<notin> fst ` set xs" using Cons.prems(1) by auto
    then have "list_erase i xs = xs"
      unfolding list_erase_def by (auto simp: filter_id_conv)
    with True show ?thesis by (simp add: list_erase_def)
  next
    case False
    then show ?thesis using Cons by (auto simp: list_erase_def)
  qed
qed

lemma list_erase_fresh:
  "\<forall>node \<in> set xs. fst node < n \<Longrightarrow> i \<in> fst ` set xs
     \<Longrightarrow> list_erase i ((n, key, val) # xs) = (n, key, val) # list_erase i xs"
  by (auto simp: list_erase_def)

text \<open>\<open>put\<close>, unfolded on a well-formed cache.\<close>

lemma put_absent:
  assumes "wf_cache c" "map_of (cache_items_map c) key = None"
  shows "put c key val =
     (if length (cache_items_map c) < max_size c
      then c\<lparr>cache_items_list := (next_node c, key, val) # cache_items_list c,
             cache_items_map := AList.update key (next_node c) (cache_items_map c),
             next_node := Suc (next_node c)\<rparr>
      else c\<lparr>cache_items_list := butlast ((next_node c, key, val) # cache_items_list c),
             cache_items_map :=
               AList.delete (fst (snd (last ((next_node c, key, val) # cache_items_list c))))
                 (AList.update key (next_node c) (cache_items_map c)),
             next_node := Suc (next_node c)\<rparr>)"
proof -
  have "consistent ((next_node c, key, val) # cache_items_list c)
          (AList.update key (next_node c) (cache_items_map c)) (Suc (next_node c))"
    using assms unfolding wf_cache_def by (auto intro: consistent_push)
  then have "length (AList.update key (next_node c) (cache_items_map c))
               = Suc (length (cache_items_list c))"
    by (auto dest: consistent_length)
  moreover have "length (cache_items_map c) = length (cache_items_list c)"
    using assms unfolding wf_cache_def by (auto dest: consistent_length)
  ultimately show ?thesis
    using assms(2) by (auto simp: put_def Let_def)
qed

lemma put_present:
  assumes "wf_cache c" "map_of (cache_items_map c) key = Some i"
  shows "put c key val =
      c\<lparr>cache_items_list := (next_node c, key, val) # list_erase i (cache_items_list c),
        cache_items_map := AList.update key (next_node c) (AList.delete key (cache_items_map c)),
        next_node := Suc (next_node c)\<rparr>"
    and "consistent ((next_node c, key, val) # list_erase i (cache_items_list c))
           (AList.update key (next_node c) (AList.delete key (cache_items_map c)))
           (Suc (next_node c))"
    and "length (AList.update key (next_node c) (AList.delete key (cache_items_map c)))
           = length (cache_items_map c)"
proof -
  let ?L = "cache_items_list c" and ?M = "cache_items_map c" and ?n = "next_node c"
  have con: "consistent ?L ?M ?n" using assms(1) by (simp add: wf_cache_def)
  have bound: "\<forall>node \<in> set ?L. fst node < ?n" using con by (simp add: consistent_def)
  obtain v0 where node: "(i, key, v0) \<in> set ?L"
    using con assms(2) unfolding consistent_def by blast
  then have iin: "i \<in> fst ` set ?L" by force
  have er: "list_erase i ((?n, key, val) # ?L) = (?n, key, val) # list_erase i ?L"
    using bound iin by (rule list_erase_fresh)
  have c1: "consistent (list_erase i ?L) (AList.delete key ?M) ?n"
    and c2: "map_of (AList.delete key ?M) key = None"
    using consistent_erase [OF con assms(2)] by simp_all
  show c3: "consistent ((?n, key, val) # list_erase i ?L)
           (AList.update key ?n (AList.delete key ?M)) (Suc ?n)"
    using c1 c2 by (rule consistent_push)
  have "Suc (length (list_erase i ?L)) = length ?L"
    using con iin by (auto simp: consistent_def intro: length_list_erase)
  moreover have "length ?M = length ?L" using con by (rule consistent_length)
  moreover have "length (AList.update key ?n (AList.delete key ?M))
                   = length ((?n, key, val) # list_erase i ?L)"
    using c3 by (rule consistent_length)
  ultimately show len: "length (AList.update key ?n (AList.delete key ?M)) = length ?M"
    by simp
  have "length ?M \<le> max_size c" using assms(1) by (simp add: wf_cache_def)
  with len er show "put c key val =
      c\<lparr>cache_items_list := (?n, key, val) # list_erase i ?L,
        cache_items_map := AList.update key ?n (AList.delete key ?M),
        next_node := Suc ?n\<rparr>"
    using assms(2) by (simp add: put_def Let_def)
qed

lemma wf_put:
  assumes "wf_cache c"
  shows "wf_cache (put c key val)"
proof (cases "map_of (cache_items_map c) key")
  case None
  let ?L = "(next_node c, key, val) # cache_items_list c"
  let ?M = "AList.update key (next_node c) (cache_items_map c)"
  have con: "consistent ?L ?M (Suc (next_node c))"
    using assms None unfolding wf_cache_def by (auto intro: consistent_push)
  have "length ?M = length ?L"
    using con by (rule consistent_length)
  moreover have "length (cache_items_map c) = length (cache_items_list c)"
    using assms unfolding wf_cache_def by (auto dest: consistent_length)
  ultimately have len: "length ?M = Suc (length (cache_items_map c))"
    by simp
  show ?thesis
  proof (cases "length (cache_items_map c) < max_size c")
    case True
    then show ?thesis
      using con len by (simp add: put_absent [OF assms None] wf_cache_def)
  next
    case False
    have ev: "consistent (butlast ?L) (AList.delete (fst (snd (last ?L))) ?M) (Suc (next_node c))"
      using con by (rule consistent_evict) simp
    then have "length (AList.delete (fst (snd (last ?L))) ?M) = length (butlast ?L)"
      by (rule consistent_length)
    also have "\<dots> = length (cache_items_map c)"
      using assms unfolding wf_cache_def by (auto dest: consistent_length)
    finally have "length (AList.delete (fst (snd (last ?L))) ?M) \<le> max_size c"
      using assms by (simp add: wf_cache_def)
    with ev False show ?thesis
      by (simp add: put_absent [OF assms None] wf_cache_def)
  qed
next
  case (Some i)
  show ?thesis
    using put_present [OF assms Some] assms
    by (simp add: wf_cache_def)
qed

lemma consistent_splice:
  assumes "consistent xs m n"
  shows "consistent (splice_front i xs) m n"
proof -
  have "distinct (map fst (splice_front i xs))"
    using assms unfolding consistent_def splice_front_def
    by (auto simp: distinct_map_filter)
  moreover have "distinct (map (fst \<circ> snd) (splice_front i xs))"
  proof -
    have d: "distinct (map (fst \<circ> snd) xs)" "inj_on (fst \<circ> snd) (set xs)"
      using assms unfolding consistent_def by (simp_all add: distinct_map)
    have inj: "\<And>x y. x \<in> set xs \<Longrightarrow> y \<in> set xs \<Longrightarrow> fst (snd x) = fst (snd y) \<Longrightarrow> x = y"
    proof -
      fix x y
      assume "x \<in> set xs" "y \<in> set xs" "fst (snd x) = fst (snd y)"
      then show "x = y" using inj_onD [OF d(2), of x y] by simp
    qed
    have "(fst \<circ> snd) ` {x \<in> set xs. fst x = i} \<inter> (fst \<circ> snd) ` {x \<in> set xs. fst x \<noteq> i} = {}"
      using inj by fastforce
    then show ?thesis
      using d(1) unfolding splice_front_def
      by (simp add: distinct_map_filter del: o_apply)
  qed
  moreover have "set (splice_front i xs) = set xs"
    unfolding splice_front_def by auto
  ultimately show ?thesis
    using assms unfolding consistent_def by simp
qed

lemma wf_get:
  assumes "wf_cache c"
  shows "wf_cache (snd (get c key))"
  using assms
  by (auto simp: get_def wf_cache_def consistent_splice split: option.splits)

lemma wf_apply_op: "wf_cache c \<Longrightarrow> wf_cache (apply_op c op)"
  by (cases op) (simp_all add: wf_put wf_get putIfDoesNotExist_def)

lemma wf_run_ops: "wf_cache c \<Longrightarrow> wf_cache (run_ops c ops)"
  unfolding run_ops_def
  by (induction ops arbitrary: c) (simp_all add: wf_apply_op)


lemma entries_lookup:
  assumes "consistent xs m n"
  shows "map_of (map snd xs) k = Some v \<longleftrightarrow> (\<exists>i. (i, k, v) \<in> set xs)"
proof -
  have "distinct (map fst (map snd xs))"
    using assms by (simp add: consistent_def)
  then have "map_of (map snd xs) k = Some v \<longleftrightarrow> (k, v) \<in> set (map snd xs)"
    by simp
  also have "\<dots> \<longleftrightarrow> (\<exists>i. (i, k, v) \<in> set xs)"
    by force
  finally show ?thesis .
qed

lemma exists_key_entries:
  assumes "wf_cache c"
  shows "exists_key c k \<longleftrightarrow> k \<in> fst ` set (cache_entries c)"
proof -
  have con: "consistent (cache_items_list c) (cache_items_map c) (next_node c)"
    using assms by (simp add: wf_cache_def)
  have "exists_key c k \<longleftrightarrow> (\<exists>i. map_of (cache_items_map c) k = Some i)"
    by (auto simp: exists_key_def)
  also have "\<dots> \<longleftrightarrow> (\<exists>i v. (i, k, v) \<in> set (cache_items_list c))"
    using con by (simp add: consistent_def)
  also have "\<dots> \<longleftrightarrow> k \<in> fst ` set (cache_entries c)"
    unfolding cache_entries_def by force
  finally show ?thesis .
qed

lemma size_cache_entries:
  "wf_cache c \<Longrightarrow> size_cache c = length (cache_entries c)"
  by (auto simp: wf_cache_def size_cache_def cache_entries_def dest: consistent_length)

lemma get_value:
  assumes "wf_cache c"
  shows "fst (get c k) =
           (case map_of (cache_entries c) k of
              None \<Rightarrow> Inl (Std_range_error ''There is no such key in cache'')
            | Some v \<Rightarrow> Inr v)"
proof -
  let ?L = "cache_items_list c" and ?M = "cache_items_map c"
  have con: "consistent ?L ?M (next_node c)"
    using assms by (simp add: wf_cache_def)
  show ?thesis
  proof (cases "map_of ?M k")
    case None
    then have "\<not> exists_key c k" by (simp add: exists_key_def)
    then have "k \<notin> fst ` set (cache_entries c)"
      using assms by (simp add: exists_key_entries)
    then have "map_of (cache_entries c) k = None"
      by (simp add: map_of_eq_None_iff)
    with None show ?thesis by (simp add: get_def)
  next
    case (Some i)
    then obtain v where node: "(i, k, v) \<in> set ?L"
      using con unfolding consistent_def by blast
    have "distinct (map fst ?L)" using con by (simp add: consistent_def)
    with node have "map_of ?L i = Some (k, v)" by simp
    moreover have "map_of (cache_entries c) k = Some v"
      using node entries_lookup [OF con] unfolding cache_entries_def by blast
    ultimately show ?thesis using Some by (simp add: get_def)
  qed
qed

lemma filter_singleton:
  "distinct xs \<Longrightarrow> a \<in> set xs \<Longrightarrow> (\<And>x. x \<in> set xs \<Longrightarrow> P x = (x = a)) \<Longrightarrow> filter P xs = [a]"
proof (induction xs)
  case Nil
  then show ?case by simp
next
  case (Cons y ys)
  show ?case
  proof (cases "y = a")
    case True
    then have "a \<notin> set ys" using Cons.prems(1) by simp
    then have "filter P ys = []"
      using Cons.prems(3) by (auto simp: filter_empty_conv)
    with True Cons.prems(3) show ?thesis by simp
  next
    case False
    then have "a \<in> set ys" using Cons.prems(2) by simp
    moreover have "distinct ys" using Cons.prems(1) by simp
    ultimately have "filter P ys = [a]"
      using Cons.IH Cons.prems(3) by simp
    with False Cons.prems(3) show ?thesis by simp
  qed
qed

lemma filter_nodes_by_key:
  assumes "consistent xs m n" "(i, k, v) \<in> set xs"
  shows "filter (\<lambda>node. fst node \<noteq> i) xs = filter (\<lambda>node. fst (snd node) \<noteq> k) xs"
    and "filter (\<lambda>node. fst node = i) xs = [(i, k, v)]"
proof -
  have di: "inj_on fst (set xs)" and dk: "inj_on (fst \<circ> snd) (set xs)"
    using assms(1) unfolding consistent_def by (simp_all add: distinct_map)
  have byid: "\<And>x. x \<in> set xs \<Longrightarrow> (fst x = i) = (x = (i, k, v))"
  proof -
    fix x assume x: "x \<in> set xs"
    obtain j k' v' where xe: "x = (j, k', v')" by (cases x)
    show "(fst x = i) = (x = (i, k, v))"
      using inj_onD [OF di, of "(j, k', v')" "(i, k, v)"] x assms(2) unfolding xe by auto
  qed
  have bykey: "\<And>x. x \<in> set xs \<Longrightarrow> (fst (snd x) = k) = (x = (i, k, v))"
  proof -
    fix x assume x: "x \<in> set xs"
    obtain j k' v' where xe: "x = (j, k', v')" by (cases x)
    show "(fst (snd x) = k) = (x = (i, k, v))"
      using inj_onD [OF dk, of "(j, k', v')" "(i, k, v)"] x assms(2) unfolding xe by auto
  qed
  show "filter (\<lambda>node. fst node \<noteq> i) xs = filter (\<lambda>node. fst (snd node) \<noteq> k) xs"
    by (rule filter_cong) (simp_all add: byid bykey)
  have "distinct xs" using assms(1) unfolding consistent_def by (metis distinct_map)
  then show "filter (\<lambda>node. fst node = i) xs = [(i, k, v)]"
    using assms(2) byid by (rule filter_singleton)
qed

lemma get_entries:
  assumes "wf_cache c" "map_of (cache_entries c) k = Some v"
  shows "cache_entries (snd (get c k)) = (k, v) # filter (\<lambda>e. fst e \<noteq> k) (cache_entries c)"
proof -
  let ?L = "cache_items_list c" and ?M = "cache_items_map c"
  have con: "consistent ?L ?M (next_node c)"
    using assms(1) by (simp add: wf_cache_def)
  obtain i where node: "(i, k, v) \<in> set ?L"
    using assms(2) entries_lookup [OF con] unfolding cache_entries_def by blast
  then have m: "map_of ?M k = Some i"
    using con unfolding consistent_def by blast
  have "distinct (map fst ?L)" using con by (simp add: consistent_def)
  with node have l: "map_of ?L i = Some (k, v)" by simp
  have "splice_front i ?L = (i, k, v) # filter (\<lambda>node. fst (snd node) \<noteq> k) ?L"
    unfolding splice_front_def
    using filter_nodes_by_key [OF con node] by simp
  then show ?thesis
    using m l by (simp add: get_def cache_entries_def filter_map o_def)
qed

lemma put_entries_absent:
  assumes "wf_cache c" "\<not> exists_key c k"
  shows "cache_entries (put c k v) =
           (if size_cache c < max_size c then (k, v) # cache_entries c
            else butlast ((k, v) # cache_entries c))"
proof -
  have none: "map_of (cache_items_map c) k = None"
    using assms(2) by (simp add: exists_key_def)
  show ?thesis
    unfolding put_absent [OF assms(1) none]
    by (simp add: cache_entries_def size_cache_def map_butlast)
qed

lemma put_entries_present:
  assumes "wf_cache c" "exists_key c k"
  shows "cache_entries (put c k v) = (k, v) # filter (\<lambda>e. fst e \<noteq> k) (cache_entries c)"
    and "size_cache (put c k v) = size_cache c"
proof -
  let ?L = "cache_items_list c" and ?M = "cache_items_map c"
  have con: "consistent ?L ?M (next_node c)"
    using assms(1) by (simp add: wf_cache_def)
  obtain i where some: "map_of ?M k = Some i"
    using assms(2) by (auto simp: exists_key_def)
  then obtain v0 where node: "(i, k, v0) \<in> set ?L"
    using con unfolding consistent_def by blast
  have "list_erase i ?L = filter (\<lambda>node. fst (snd node) \<noteq> k) ?L"
    unfolding list_erase_def using filter_nodes_by_key(1) [OF con node] .
  then show "cache_entries (put c k v) = (k, v) # filter (\<lambda>e. fst e \<noteq> k) (cache_entries c)"
    unfolding put_present(1) [OF assms(1) some]
    by (simp add: cache_entries_def filter_map o_def)
  show "size_cache (put c k v) = size_cache c"
    unfolding put_present(1) [OF assms(1) some]
    using put_present(3) [OF assms(1) some]
    by (simp add: size_cache_def)
qed

lemma max_size_put: "max_size (put c k v) = max_size c"
  by (simp add: put_def Let_def)

lemma max_size_apply_op: "max_size (apply_op c op) = max_size c"
  by (cases op) (simp_all add: max_size_put putIfDoesNotExist_def get_def split: option.splits)

lemma max_size_run_ops: "max_size (run_ops c ops) = max_size c"
  unfolding run_ops_def
  by (induction ops arbitrary: c) (simp_all add: max_size_apply_op)

lemma reachable_wf: "wf_cache (run_ops (new_lru_cache n) ops)"
  by (rule wf_run_ops) (rule wf_new_lru_cache)

text \<open>The list is ordered by time of use, most recent first, in every reachable cache.\<close>

lemma promote_ordered:
  assumes "sorted_wrt (\<lambda>x y. u (fst y) < u (fst x)) es" "\<forall>j. u j \<le> t"
  shows "sorted_wrt (\<lambda>x y. (u(k := Suc t)) (fst y) < (u(k := Suc t)) (fst x))
           ((k, v) # filter (\<lambda>e. fst e \<noteq> k) es)"
proof -
  let ?fs = "filter (\<lambda>e. fst e \<noteq> k) es"
  have "sorted_wrt (\<lambda>x y. u (fst y) < u (fst x)) ?fs"
    using assms(1) by (rule sorted_wrt_filter)
  then have "sorted_wrt (\<lambda>x y. (u(k := Suc t)) (fst y) < (u(k := Suc t)) (fst x)) ?fs"
    by (rule sorted_wrt_mono_rel [rotated]) auto
  moreover have "\<forall>y \<in> set ?fs. (u(k := Suc t)) (fst y) < (u(k := Suc t)) k"
    using assms(2) by (auto simp: less_Suc_eq_le)
  ultimately show ?thesis by simp
qed

lemma butlast_ordered:
  "sorted_wrt R es \<Longrightarrow> sorted_wrt R (butlast es)"
  by (simp add: butlast_conv_take sorted_wrt_take)

lemma filter_absent_key:
  "k \<notin> fst ` set es \<Longrightarrow> filter (\<lambda>e. fst e \<noteq> k) es = es"
  by (induction es) auto

lemma put_ordered:
  assumes "wf_cache c" "sorted_wrt (\<lambda>x y. u (fst y) < u (fst x)) (cache_entries c)"
    "\<forall>j. u j \<le> t"
  shows "sorted_wrt (\<lambda>x y. (u(k := Suc t)) (fst y) < (u(k := Suc t)) (fst x))
           (cache_entries (put c k v))"
proof -
  let ?R = "\<lambda>x y. (u(k := Suc t)) (fst y) < (u(k := Suc t)) (fst x)"
  have base: "sorted_wrt ?R ((k, v) # filter (\<lambda>e. fst e \<noteq> k) (cache_entries c))"
    using assms(2,3) by (rule promote_ordered)
  show ?thesis
  proof (cases "exists_key c k")
    case True
    then show ?thesis using base put_entries_present(1) [OF assms(1) True] by simp
  next
    case False
    then have "k \<notin> fst ` set (cache_entries c)"
      using assms(1) by (simp add: exists_key_entries)
    then have "filter (\<lambda>e. fst e \<noteq> k) (cache_entries c) = cache_entries c"
      by (rule filter_absent_key)
    with base have full: "sorted_wrt ?R ((k, v) # cache_entries c)" by simp
    then have "sorted_wrt ?R (butlast ((k, v) # cache_entries c))"
      by (rule butlast_ordered)
    with full show ?thesis
      unfolding put_entries_absent [OF assms(1) False] by simp
  qed
qed

lemma get_ordered:
  assumes "wf_cache c" "sorted_wrt (\<lambda>x y. u (fst y) < u (fst x)) (cache_entries c)"
    "\<forall>j. u j \<le> t" "exists_key c k"
  shows "sorted_wrt (\<lambda>x y. (u(k := Suc t)) (fst y) < (u(k := Suc t)) (fst x))
           (cache_entries (snd (get c k)))"
proof -
  have "k \<in> fst ` set (cache_entries c)"
    using assms(1,4) by (simp add: exists_key_entries)
  then obtain v where "map_of (cache_entries c) k = Some v"
    by (metis map_of_eq_None_iff not_Some_eq)
  then have "cache_entries (snd (get c k))
               = (k, v) # filter (\<lambda>e. fst e \<noteq> k) (cache_entries c)"
    using assms(1) by (simp add: get_entries)
  with promote_ordered [OF assms(2,3), of k v] show ?thesis by (simp only:)
qed

lemma get_absent: "\<not> exists_key c k \<Longrightarrow> snd (get c k) = c"
  by (simp add: get_def exists_key_def)

lemma apply_op_ordered:
  fixes c :: "('k, 'v) lru_cache" and op :: "('k, 'v) cache_op"
  assumes "wf_cache c" "sorted_wrt (\<lambda>x y. u (fst y) < u (fst x)) (cache_entries c)"
    "\<forall>j. u j \<le> t"
  defines "u' \<equiv> (case touched_key c op of None \<Rightarrow> u | Some k \<Rightarrow> u(k := Suc t))"
  shows "sorted_wrt (\<lambda>x y. u' (fst y) < u' (fst x)) (cache_entries (apply_op c op))"
    and "\<forall>j. u' j \<le> Suc t"
proof -
  show "\<forall>j. u' j \<le> Suc t"
    using assms(3) unfolding u'_def by (auto simp: le_Suc_eq split: option.splits)
  show "sorted_wrt (\<lambda>x y. u' (fst y) < u' (fst x)) (cache_entries (apply_op c op))"
  proof (cases op)
    case (Put k v)
    then show ?thesis
      using put_ordered [OF assms(1-3)] by (simp add: u'_def touched_key_def)
  next
    case (PutIfDoesNotExist k v)
    then show ?thesis
      using put_ordered [OF assms(1-3)] assms(2)
      by (simp add: u'_def touched_key_def putIfDoesNotExist_def)
  next
    case (Get k)
    then show ?thesis
      using get_ordered [OF assms(1-3)] assms(2) get_absent [of c k]
      by (cases "exists_key c k") (simp_all add: u'_def touched_key_def)
  next
    case (Exists k)
    then show ?thesis using assms(2) by (simp add: u'_def touched_key_def)
  next
    case Size
    then show ?thesis using assms(2) by (simp add: u'_def touched_key_def)
  qed
qed

lemma run_ops_ordered:
  assumes "wf_cache c" "sorted_wrt (\<lambda>x y. u (fst y) < u (fst x)) (cache_entries c)"
    "\<forall>j. u j \<le> t"
  shows "sorted_wrt (\<lambda>x y. run_uses c ops t u (fst y) < run_uses c ops t u (fst x))
           (cache_entries (run_ops c ops))"
  using assms
proof (induction ops arbitrary: c t u)
  case Nil
  then show ?case by (simp add: run_ops_def)
next
  case (Cons op ops)
  let ?u' = "case touched_key c op of None \<Rightarrow> u | Some k \<Rightarrow> u(k := Suc t)"
  have 1: "wf_cache (apply_op c op)" using Cons.prems(1) by (rule wf_apply_op)
  have 2: "sorted_wrt (\<lambda>x y. ?u' (fst y) < ?u' (fst x)) (cache_entries (apply_op c op))"
    and 3: "\<forall>j. ?u' j \<le> Suc t"
    using apply_op_ordered [OF Cons.prems] by simp_all
  have "run_ops c (op # ops) = run_ops (apply_op c op) ops"
    by (simp add: run_ops_def)
  then show ?case
    using Cons.IH [OF 1 2 3] by simp
qed

lemma reachable_ordered:
  "sorted_wrt (\<lambda>x y. use_time C ops (fst y) < use_time C ops (fst x))
     (cache_entries (run_ops (new_lru_cache C) ops))"
proof -
  have "sorted_wrt (\<lambda>x y. (\<lambda>k. 0::nat) (fst y) < (\<lambda>k. 0) (fst x))
          (cache_entries (new_lru_cache C))"
    by (simp add: cache_entries_def new_lru_cache_def)
  then show ?thesis
    unfolding use_time_def
    by (rule run_ops_ordered [OF wf_new_lru_cache]) simp
qed

lemma distinct_cache_entries:
  "wf_cache c \<Longrightarrow> distinct (map fst (cache_entries c))"
  by (simp add: wf_cache_def consistent_def cache_entries_def)

text \<open>
  Claim C8. In every cache reached from a new cache of capacity \<open>C\<close> by any sequence of
  \<open>put\<close>, \<open>putIfDoesNotExist\<close>, \<open>get\<close>, \<open>exists\<close> and \<open>size\<close> calls, the number
  of entries is at most \<open>C\<close>, also after one more \<open>put\<close>, and the entries stand in the
  order of their last use, most recent first. A \<open>put\<close> of an absent key into a full cache
  leaves the new entry in front of the old ones with the last entry dropped, and the size
  stays \<open>C\<close>; when \<open>C\<close> is positive the dropped entry is a key that was present, is
  absent afterwards, and was last used strictly before every other key that was present,
  while every other key keeps its presence.
\<close>

theorem lru_cache_capacity:
  assumes "c = run_ops (new_lru_cache C) ops"
  shows "size_cache c \<le> C \<and>
         size_cache (put c k v) \<le> C \<and>
         sorted_wrt (\<lambda>x y. use_time C ops (fst y) < use_time C ops (fst x)) (cache_entries c) \<and>
         (\<not> exists_key c k \<and> size_cache c = C \<longrightarrow>
            cache_entries (put c k v) = butlast ((k, v) # cache_entries c) \<and>
            size_cache (put c k v) = C \<and>
            (\<forall>k'. exists_key (put c k v) k' = (k' \<in> fst ` set (butlast ((k, v) # cache_entries c)))) \<and>
            (0 < C \<longrightarrow>
               (\<exists>e. exists_key c e \<and> \<not> exists_key (put c k v) e \<and>
                    (\<forall>k'. exists_key c k' \<and> k' \<noteq> e \<longrightarrow> use_time C ops e < use_time C ops k') \<and>
                    (\<forall>k'. exists_key (put c k v) k' = (k' = k \<or> (exists_key c k' \<and> k' \<noteq> e))))))"
proof -
  have wf: "wf_cache c" unfolding assms by (rule reachable_wf)
  have mx: "max_size c = C"
    unfolding assms by (simp add: max_size_run_ops new_lru_cache_def)
  have wfp: "wf_cache (put c k v)" using wf by (rule wf_put)
  have s1: "size_cache c \<le> C"
    using wf mx by (simp add: wf_cache_def size_cache_def)
  have s2: "size_cache (put c k v) \<le> C"
    using wfp mx by (simp add: wf_cache_def size_cache_def max_size_put)
  have ord: "sorted_wrt (\<lambda>x y. use_time C ops (fst y) < use_time C ops (fst x)) (cache_entries c)"
    unfolding assms by (rule reachable_ordered)
  have ev: "cache_entries (put c k v) = butlast ((k, v) # cache_entries c)"
    if "\<not> exists_key c k" "size_cache c = C"
    using put_entries_absent [OF wf that(1)] that(2) mx by simp
  have sz: "size_cache (put c k v) = C" if "\<not> exists_key c k" "size_cache c = C"
    using ev [OF that] that(2) size_cache_entries [OF wf] size_cache_entries [OF wfp]
    by (cases "cache_entries c") auto
  have ex: "exists_key (put c k v) k' = (k' \<in> fst ` set (butlast ((k, v) # cache_entries c)))"
    if "\<not> exists_key c k" "size_cache c = C" for k'
    using ev [OF that] exists_key_entries [OF wfp] by simp
  have lru: "\<exists>e. exists_key c e \<and> \<not> exists_key (put c k v) e \<and>
                (\<forall>k'. exists_key c k' \<and> k' \<noteq> e \<longrightarrow> use_time C ops e < use_time C ops k') \<and>
                (\<forall>k'. exists_key (put c k v) k' = (k' = k \<or> (exists_key c k' \<and> k' \<noteq> e)))"
    if absent: "\<not> exists_key c k" and full: "size_cache c = C" and pos: "0 < C"
  proof -
    let ?es = "cache_entries c"
    have ne: "?es \<noteq> []"
      using full pos size_cache_entries [OF wf] by auto
    let ?e = "fst (last ?es)"
    have split: "?es = butlast ?es @ [last ?es]" using ne by simp
    have dist: "distinct (map fst (butlast ?es @ [last ?es]))"
      using distinct_cache_entries [OF wf] split by simp
    then have notin: "?e \<notin> fst ` set (butlast ?es)" by auto
    have keys: "fst ` set ?es = insert ?e (fst ` set (butlast ?es))"
    proof -
      have "fst ` set ?es = fst ` set (butlast ?es @ [last ?es])" using split by simp
      then show ?thesis by auto
    qed
    have sorted_split:
      "sorted_wrt (\<lambda>x y. use_time C ops (fst y) < use_time C ops (fst x)) (butlast ?es @ [last ?es])"
      using ord split by simp
    have before: "use_time C ops ?e < use_time C ops (fst x)" if "x \<in> set (butlast ?es)" for x
      using sorted_split that by (auto simp: sorted_wrt_append)
    have after: "exists_key (put c k v) k' = (k' = k \<or> k' \<in> fst ` set (butlast ?es))" for k'
      using ex [OF absent full, of k'] ne by auto
    have present: "exists_key c k' = (k' \<in> insert ?e (fst ` set (butlast ?es)))" for k'
      using keys by (simp add: exists_key_entries [OF wf])
    have 1: "exists_key c ?e"
      using present [of ?e] by simp
    have ek: "?e \<noteq> k" using 1 absent by auto
    have 2: "\<not> exists_key (put c k v) ?e"
      using after [of ?e] ek notin by simp
    have 3: "use_time C ops ?e < use_time C ops k'" if "exists_key c k' \<and> k' \<noteq> ?e" for k'
    proof -
      have "k' \<in> fst ` set (butlast ?es)"
        using that present [of k'] by blast
      then show ?thesis using before by auto
    qed
    have 4: "exists_key (put c k v) k' = (k' = k \<or> (exists_key c k' \<and> k' \<noteq> ?e))" for k'
      using after [of k'] present [of k'] notin by blast
    show ?thesis using 1 2 3 4 by blast
  qed
  show ?thesis using s1 s2 ord ev sz ex lru by blast
qed

text \<open>
  Claim C9. With capacity 2 and distinct keys \<open>a\<close>, \<open>b\<close>, \<open>c\<close>, the calls
  \<open>put(a)\<close>, \<open>put(b)\<close>, \<open>get(a)\<close>, \<open>put(c)\<close> evict \<open>b\<close>: exactly \<open>a\<close> and \<open>c\<close>
  remain present.
\<close>

theorem lru_cache_recency:
  assumes "a \<noteq> b" "a \<noteq> c" "b \<noteq> c"
  shows "let s = run_ops (new_lru_cache 2) [Put a va, Put b vb, Get a, Put c vc]
         in cache_entries s = [(c, vc), (a, va)] \<and> exists_key s a \<and> exists_key s c \<and>
            \<not> exists_key s b \<and> size_cache s = 2 \<and>
            (\<forall>k. exists_key s k = (k \<in> {a, c}))"
  using assms
  by (auto simp: run_ops_def new_lru_cache_def put_def get_def Let_def cache_entries_def
      exists_key_def size_cache_def list_erase_def splice_front_def)


theorem lru_cache_capacity_witness:
  "size_cache (run_ops (new_lru_cache 2) [Put ''a'' (1::nat), Put ''b'' 2, Get ''a'']) = 2 \<and>
   \<not> exists_key (run_ops (new_lru_cache 2) [Put ''a'' (1::nat), Put ''b'' 2, Get ''a'']) ''c'' \<and>
   cache_entries (run_ops (new_lru_cache 2) [Put ''a'' (1::nat), Put ''b'' 2, Get ''a''])
     = [(''a'', 1), (''b'', 2)] \<and>
   use_time 2 [Put ''a'' (1::nat), Put ''b'' 2, Get ''a''] ''a'' = 3 \<and>
   use_time 2 [Put ''a'' (1::nat), Put ''b'' 2, Get ''a''] ''b'' = 2 \<and>
   cache_entries
       (put (run_ops (new_lru_cache 2) [Put ''a'' (1::nat), Put ''b'' 2, Get ''a'']) ''c'' 3)
     = [(''c'', 3), (''a'', 1)] \<and>
   size_cache
       (put (run_ops (new_lru_cache 2) [Put ''a'' (1::nat), Put ''b'' 2, Get ''a'']) ''c'' 3) = 2 \<and>
   \<not> exists_key
       (put (run_ops (new_lru_cache 2) [Put ''a'' (1::nat), Put ''b'' 2, Get ''a'']) ''c'' 3) ''b''"
proof -
  let ?ops = "[Put ''a'' (1::nat), Put ''b'' 2, Get ''a'']"
  let ?c = "run_ops (new_lru_cache 2) ?ops"
  have e: "cache_entries ?c = [(''a'', 1), (''b'', 2)]"
    by (simp add: run_ops_def new_lru_cache_def put_def get_def Let_def cache_entries_def
        list_erase_def splice_front_def)
  have s: "size_cache ?c = 2"
    by (simp add: run_ops_def new_lru_cache_def put_def get_def Let_def size_cache_def)
  have x: "\<not> exists_key ?c ''c''"
    by (simp add: run_ops_def new_lru_cache_def put_def get_def Let_def exists_key_def)
  have ua: "use_time 2 ?ops ''a'' = 3" and ub: "use_time 2 ?ops ''b'' = 2"
    by (simp_all add: use_time_def touched_key_def new_lru_cache_def put_def get_def Let_def
        exists_key_def)
  show ?thesis
    using lru_cache_capacity [OF refl, of 2 ?ops "''c''" 3] e s x ua ub
    by simp
qed

theorem lru_cache_recency_witness:
  "let s = run_ops (new_lru_cache 2) [Put ''a'' (1::nat), Put ''b'' 2, Get ''a'', Put ''c'' 3]
   in cache_entries s = [(''c'', 3), (''a'', 1)] \<and> exists_key s ''a'' \<and> exists_key s ''c'' \<and>
      \<not> exists_key s ''b'' \<and> size_cache s = 2"
  using lru_cache_recency [of "''a''" "''b''" "''c''" "1::nat" 2 3]
  by (simp add: Let_def)

lemma map_of_filter_other:
  "k' \<noteq> k \<Longrightarrow> map_of (filter (\<lambda>e. fst e \<noteq> k) es) k' = map_of es k'"
  by (induction es) auto

text \<open>
  Claim C10. In a reachable cache, a \<open>put\<close> on a key that is present replaces its value,
  moves it to the front, keeps the size and the order of the other entries, and changes
  neither the presence nor the value of any other key.
\<close>

theorem put_present_frame:
  assumes "c = run_ops (new_lru_cache C) ops" "exists_key c k"
  shows "cache_entries (put c k v) = (k, v) # filter (\<lambda>e. fst e \<noteq> k) (cache_entries c) \<and>
         size_cache (put c k v) = size_cache c \<and>
         exists_key (put c k v) k \<and>
         fst (get (put c k v) k) = Inr v \<and>
         (\<forall>k'. k' \<noteq> k \<longrightarrow>
            exists_key (put c k v) k' = exists_key c k' \<and>
            fst (get (put c k v) k') = fst (get c k'))"
proof -
  have wf: "wf_cache c" unfolding assms(1) by (rule reachable_wf)
  have wfp: "wf_cache (put c k v)" using wf by (rule wf_put)
  have e: "cache_entries (put c k v) = (k, v) # filter (\<lambda>e. fst e \<noteq> k) (cache_entries c)"
    using wf assms(2) by (rule put_entries_present(1))
  have s: "size_cache (put c k v) = size_cache c"
    using wf assms(2) by (rule put_entries_present(2))
  have x: "exists_key (put c k v) k"
    using e by (simp add: exists_key_entries [OF wfp])
  have g: "fst (get (put c k v) k) = Inr v"
    using e by (simp add: get_value [OF wfp])
  have o1: "exists_key (put c k v) k' = exists_key c k'" if "k' \<noteq> k" for k'
    using e that by (auto simp: exists_key_entries [OF wfp] exists_key_entries [OF wf])
  have o2: "fst (get (put c k v) k') = fst (get c k')" if "k' \<noteq> k" for k'
    using e that by (simp add: get_value [OF wfp] get_value [OF wf] map_of_filter_other)
  show ?thesis using e s x g o1 o2 by blast
qed

theorem put_present_frame_witness:
  "exists_key (run_ops (new_lru_cache 2) [Put ''a'' (1::nat), Put ''b'' 2]) ''a'' \<and>
   cache_entries (put (run_ops (new_lru_cache 2) [Put ''a'' (1::nat), Put ''b'' 2]) ''a'' 7)
     = [(''a'', 7), (''b'', 2)] \<and>
   size_cache (put (run_ops (new_lru_cache 2) [Put ''a'' (1::nat), Put ''b'' 2]) ''a'' 7) = 2 \<and>
   fst (get (put (run_ops (new_lru_cache 2) [Put ''a'' (1::nat), Put ''b'' 2]) ''a'' 7) ''b'')
     = Inr 2"
proof -
  let ?c = "run_ops (new_lru_cache 2) [Put ''a'' (1::nat), Put ''b'' 2]"
  have e: "cache_entries ?c = [(''b'', 2), (''a'', 1)]"
    by (simp add: run_ops_def new_lru_cache_def put_def Let_def cache_entries_def)
  have s: "size_cache ?c = 2"
    by (simp add: run_ops_def new_lru_cache_def put_def Let_def size_cache_def)
  have x: "exists_key ?c ''a''"
    by (simp add: run_ops_def new_lru_cache_def put_def Let_def exists_key_def)
  have g: "fst (get ?c ''b'') = Inr 2"
    by (simp add: run_ops_def new_lru_cache_def put_def Let_def get_def)
  show ?thesis
    using put_present_frame [OF refl x, of 7] e s x g
    by simp
qed

end
